theory Spec2Isabelle
  imports Main "HOL-Library.Log_Nat" "HOL-Library.Word" "HOL-Library.Char_ord"
    "HOL-Library.List_Lexorder"
begin

unbundle bit_operations_syntax


section \<open>Slice shape inference (ngraph/core/src/op/slice.cpp)\<close>

subsection \<open>The double arithmetic used by \<open>get_sliced_dim_size\<close>\<close>

text \<open>
  \<open>get_sliced_dim_size\<close> computes \<open>std::ceil(elements_in_range / std::fabs(step))\<close>:
  both 64-bit integers are converted to binary64, divided there, and the ceiling is
  converted back to \<open>int64_t\<close>. A finite nonnegative double is a rational; \<open>to_double\<close>
  rounds a nonnegative rational to the nearest binary64 value (53 significant bits, ties
  to even). All values met here lie in the normal range, between \<open>2 powi -63\<close> and
  \<open>2 powi 63\<close>, so neither overflow nor subnormals occur.
\<close>

definition binade :: "rat \<Rightarrow> int" where
  "binade q = (case quotient_of q of (n, d) \<Rightarrow>
     (let k = bitlen n - bitlen d in
      if power_int 2 k * of_int d \<le> (of_int n :: rat) then k else k - 1))"

definition round_half_even :: "rat \<Rightarrow> int" where
  "round_half_even m = (let f = \<lfloor>m\<rfloor>; r = m - of_int f in
     if r < 1 / 2 then f else if 1 / 2 < r then f + 1 else if even f then f else f + 1)"

definition to_double :: "rat \<Rightarrow> rat" where
  "to_double q = (if q \<le> 0 then 0 else
     (let u = power_int 2 (binade q - 52) in of_int (round_half_even (q / u)) * u))"

definition INT64_MAX :: int where
  "INT64_MAX = 2 ^ 63 - 1"

definition INT32_MAX :: int where
  "INT32_MAX = 2 ^ 31 - 1"

text \<open>
  Conversion of a double to \<open>int64_t\<close> is undefined in C++ when the value does not fit;
  the model returns \<open>None\<close> there. Division by a zero double gives an infinity or a NaN,
  whose conversion is undefined as well.
\<close>

definition double_to_int64 :: "rat \<Rightarrow> int option" where
  "double_to_int64 x = (if - INT64_MAX - 1 \<le> \<lfloor>x\<rfloor> \<and> \<lfloor>x\<rfloor> \<le> INT64_MAX then Some \<lfloor>x\<rfloor> else None)"

definition ceil_div_double :: "int \<Rightarrow> int \<Rightarrow> int option" where
  "ceil_div_double elements_in_range step =
     (let fabs_step = to_double (of_int \<bar>step\<bar>) in
      if fabs_step = 0 then None
      else double_to_int64
             (of_int \<lceil>to_double (to_double (of_int elements_in_range) / fabs_step)\<rceil>))"

text \<open>
  The source function, lines 50 to 69. The integer steps are done on \<open>int\<close>: for a
  dimension size between 0 and \<open>INT64_MAX\<close> and 64-bit \<open>start\<close> and \<open>stop\<close> no
  intermediate value leaves the 64-bit range, since a negative index is only ever added
  to the nonnegative size and the clipped bounds lie between \<open>-1\<close> and the size.
  \<open>std::fabs(step)\<close> converts \<open>step\<close> to a double first; the conversion rounds the
  magnitude and keeps the sign, so its absolute value is the conversion of \<open>\<bar>step\<bar>\<close>.
\<close>

definition get_sliced_dim_size :: "int \<Rightarrow> int \<Rightarrow> int \<Rightarrow> int \<Rightarrow> int option" where
  "get_sliced_dim_size start stop step dim_size =
     (let start1 = (if start < 0 then dim_size + start else start);
          stop1 = (if stop < 0 then dim_size + stop else stop);
          start2 = max 0 (min start1 dim_size);
          stop2 = max (- 1) (min stop1 dim_size);
          elements_in_range =
            (if step < 0 then max 0 (min (dim_size - 1) start2 - stop2)
             else max 0 (min dim_size stop2 - start2))
      in ceil_div_double elements_in_range step)"

subsection \<open>Dimensions and partial shapes\<close>

text \<open>
  Modelled from the spec: the \<open>Dimension\<close> class, whose source is not part of the
  files at hand. A dimension is a concrete non-negative integer, an interval from a minimum
  to a maximum, where the maximum may be unbounded, or fully dynamic, the interval from 0
  with no upper bound, written \<open>-1\<close>. A static dimension has equal minimum and
  maximum. The absent upper bound is the largest 64-bit value, which is what
  \<open>calculate_output_shape\<close> passes for it.
\<close>

record Dimension =
  min_val :: int
  max_val :: int

definition Dimension_of :: "int \<Rightarrow> Dimension" where
  "Dimension_of d =
     (if d = - 1 then \<lparr>min_val = 0, max_val = INT64_MAX\<rparr> else \<lparr>min_val = d, max_val = d\<rparr>)"

definition Dimension_range :: "int \<Rightarrow> int \<Rightarrow> Dimension" where
  "Dimension_range mn mx =
     \<lparr>min_val = (if mn = - 1 then 0 else mn), max_val = (if mx = - 1 then INT64_MAX else mx)\<rparr>"

definition has_upper_bound :: "Dimension \<Rightarrow> bool" where
  "has_upper_bound d = (max_val d \<noteq> INT64_MAX)"

definition is_static :: "Dimension \<Rightarrow> bool" where
  "is_static d = (has_upper_bound d \<and> min_val d = max_val d)"

definition get_min_length :: "Dimension \<Rightarrow> int" where
  "get_min_length d = min_val d"

definition get_max_val :: "Dimension \<Rightarrow> int" where
  "get_max_val d = max_val d"

text \<open>A partial shape of dynamic rank is \<open>None\<close>, one of static rank its dimensions.\<close>

type_synonym PartialShape = "Dimension list option"

subsection \<open>\<open>Slice::calculate_output_shape\<close>\<close>

datatype slice_error =
  InputSizeMismatch
  | AxesNotUnique
  | AxisOutOfRange
  | ZeroStep
  | UndefinedConversion

text \<open>
  The body of the loop from the reading of \<open>step\<close> on (lines 270 to 303) for one axis:
  every \<open>continue\<close> of the source is a result here.
\<close>

definition slice_axis :: "int \<Rightarrow> int \<Rightarrow> int \<Rightarrow> Dimension \<Rightarrow> slice_error + Dimension" where
  "slice_axis start stop step axis_dim =
     (if step = 0 then Inl ZeroStep
      else case get_sliced_dim_size start stop step (get_min_length axis_dim) of
        None \<Rightarrow> Inl UndefinedConversion
      | Some min_dim_size \<Rightarrow>
          if is_static axis_dim then Inr (Dimension_of min_dim_size)
          else if \<not> has_upper_bound axis_dim \<and>
                  ((step < 0 \<and> start < 0 \<and> stop > 0) \<or> (step > 0 \<and> stop < 0 \<and> start > 0))
            then Inr (Dimension_of (- 1))
          else if \<not> has_upper_bound axis_dim \<and> step < 0 \<and> start > 0 \<and> stop < 0
            then Inr (Dimension_range 0 (if start \<ge> INT32_MAX then INT64_MAX else start + 1))
          else if \<not> has_upper_bound axis_dim \<and> step > 0 \<and> stop > 0 \<and> start < 0
            then Inr (Dimension_range 0 (if stop \<ge> INT32_MAX then INT64_MAX else stop))
          else case get_sliced_dim_size start stop step (get_max_val axis_dim) of
            None \<Rightarrow> Inl UndefinedConversion
          | Some max_dim_size \<Rightarrow> Inr (Dimension_range min_dim_size max_dim_size))"

definition norm_axis :: "nat \<Rightarrow> int \<Rightarrow> int" where
  "norm_axis data_static_rank axis = (if axis < 0 then int data_static_rank + axis else axis)"

text \<open>
  The loop over the axes: the entries are \<open>(start, stop, step, axis)\<close>. Each round reads the
  dimension of \<open>data_shape\<close> and writes \<open>output_shape\<close>.
\<close>

fun slice_loop ::
  "(int \<times> int \<times> int \<times> int) list \<Rightarrow> Dimension list \<Rightarrow> Dimension list \<Rightarrow>
   slice_error + Dimension list" where
  "slice_loop [] data_shape output_shape = Inr output_shape"
| "slice_loop ((start, stop, step, axis) # rest) data_shape output_shape =
     (let n = norm_axis (length data_shape) axis in
      if \<not> (0 \<le> n \<and> n < int (length data_shape)) then Inl AxisOutOfRange
      else case slice_axis start stop step (data_shape ! nat n) of
        Inl e \<Rightarrow> Inl e
      | Inr d \<Rightarrow> slice_loop rest data_shape (output_shape[nat n := d]))"

definition calculate_output_shape ::
  "int list \<Rightarrow> int list \<Rightarrow> int list \<Rightarrow> int list \<Rightarrow> PartialShape \<Rightarrow> slice_error + PartialShape" where
  "calculate_output_shape starts stops steps axes data_shape =
     (let ind_size = length starts in
      if \<not> (length stops = ind_size \<and> length steps = ind_size \<and> length axes = ind_size)
        then Inl InputSizeMismatch
      else if \<not> distinct axes then Inl AxesNotUnique
      else case data_shape of
        None \<Rightarrow> Inr None
      | Some dims \<Rightarrow>
          (case slice_loop (zip starts (zip stops (zip steps axes))) dims dims of
             Inl e \<Rightarrow> Inl e
           | Inr out \<Rightarrow> Inr (Some out)))"

text \<open>
  The closed form of the specification, in its own words: normalise a negative index by
  adding the size, clip \<open>start\<close> into \<open>[0, dim_size]\<close> and \<open>stop\<close> into
  \<open>[-1, dim_size]\<close>, count the elements, and divide by the magnitude of the step,
  rounding up. This one is exact rational arithmetic.
\<close>

definition spec_sliced_length :: "int \<Rightarrow> int \<Rightarrow> int \<Rightarrow> int \<Rightarrow> int" where
  "spec_sliced_length start stop step dim_size =
     (let start' = max 0 (min (if start < 0 then start + dim_size else start) dim_size);
          stop' = max (- 1) (min (if stop < 0 then stop + dim_size else stop) dim_size);
          count = (if step < 0 then max 0 (min (dim_size - 1) start' - stop')
                   else max 0 (min dim_size stop' - start'))
      in \<lceil>(of_int count :: rat) / of_int \<bar>step\<bar>\<rceil>)"


section \<open>The constant payload writer (ngraph/core/src/pass/serialize.cpp)\<close>

text \<open>
  \<open>size_t\<close> is taken as 64 bits wide and the machine as little-endian, as on the
  platforms the serializer is built for. A buffer is the list of its bytes.
\<close>

type_synonym byte = "8 word"
type_synonym size_t = "64 word"

text \<open>The value of up to eight bytes read as one \<open>size_t\<close> cell.\<close>

definition cell_of_bytes :: "byte list \<Rightarrow> size_t" where
  "cell_of_bytes bs = foldr (\<lambda>b w. ucast b + push_bit 8 w) bs 0"

text \<open>One round of the loop body: \<open>seed ^= d + 0x9e3779b9 + (seed << 6) + (seed >> 2)\<close>.\<close>

definition hash_round :: "size_t \<Rightarrow> size_t \<Rightarrow> size_t" where
  "hash_round seed d = seed XOR (d + 0x9e3779b9 + push_bit 6 seed + drop_bit 2 seed)"

text \<open>The loop over the \<open>size / cel_size\<close> whole cells of the buffer.\<close>

primrec hash_cells :: "nat \<Rightarrow> size_t \<Rightarrow> byte list \<Rightarrow> size_t" where
  "hash_cells 0 seed v = seed"
| "hash_cells (Suc n) seed v = hash_cells n (hash_round seed (cell_of_bytes (take 8 v))) (drop 8 v)"

text \<open>
  \<open>hash_combine(v, size)\<close>: the seed starts as the size, the whole cells are folded in,
  then the \<open>size % cel_size\<close> last bytes, copied into a zeroed cell.
\<close>

definition hash_combine :: "byte list \<Rightarrow> size_t" where
  "hash_combine v =
     (let size = length v;
          seed = hash_cells (size div 8) (of_nat size) v;
          last_bytes = cell_of_bytes (drop (8 * (size div 8)) v)
      in hash_round seed last_bytes)"

text \<open>
  The writer. \<open>m_binary_output\<close> holds the bytes written to the stream since the writer
  was made, so that \<open>tellp\<close> is \<open>m_blob_offset\<close> plus their number. The map keeps, for a
  hash, the offset and the pointer to the buffer first written with that hash; the
  buffers are retained and immutable while the writer lives, so the model keeps the bytes
  the pointer points to.
\<close>

record ConstantWriter =
  m_hash_to_file_positions :: "size_t \<Rightarrow> (int \<times> byte list) option"
  m_binary_output :: "byte list"
  m_enable_compression :: bool
  m_blob_offset :: int

definition ConstantWriter_new :: "int \<Rightarrow> bool \<Rightarrow> ConstantWriter" where
  "ConstantWriter_new pos enable_compression =
     \<lparr>m_hash_to_file_positions = Map.empty, m_binary_output = [],
      m_enable_compression = enable_compression, m_blob_offset = pos\<rparr>"

text \<open>
  \<open>memcmp(ptr, stored, size) == 0\<close> reads \<open>size\<close> bytes of both buffers. Reading past
  the end of the retained buffer is undefined; the model gives \<open>None\<close> there.
\<close>

definition memcmp_eq :: "byte list \<Rightarrow> byte list \<Rightarrow> nat \<Rightarrow> bool option" where
  "memcmp_eq p q n = (if n \<le> length p \<and> n \<le> length q then Some (take n p = take n q) else None)"

text \<open>
  \<open>ConstantWriter::write\<close>. \<open>unordered_map::insert\<close> leaves the map as it is when
  the key is already there, which is the case in the last branch.
\<close>

definition ConstantWriter_write :: "byte list \<Rightarrow> ConstantWriter \<Rightarrow> (int \<times> ConstantWriter) option" where
  "ConstantWriter_write ptr w =
     (let size = length ptr;
          write_pos = m_blob_offset w + int (length (m_binary_output w));
          offset = write_pos - m_blob_offset w
      in if \<not> m_enable_compression w
         then Some (offset, w\<lparr>m_binary_output := m_binary_output w @ ptr\<rparr>)
         else let hash = hash_combine ptr in
           case m_hash_to_file_positions w hash of
             None \<Rightarrow>
               Some (offset,
                 w\<lparr>m_binary_output := m_binary_output w @ ptr,
                   m_hash_to_file_positions := (m_hash_to_file_positions w)(hash \<mapsto> (offset, ptr))\<rparr>)
           | Some (pos, stored) \<Rightarrow>
               (case memcmp_eq ptr stored size of
                  None \<Rightarrow> None
                | Some True \<Rightarrow> Some (pos, w)
                | Some False \<Rightarrow> Some (offset, w\<lparr>m_binary_output := m_binary_output w @ ptr\<rparr>)))"

text \<open>A sequence of writes, with the offsets they return.\<close>

fun write_all :: "byte list list \<Rightarrow> ConstantWriter \<Rightarrow> (int list \<times> ConstantWriter) option" where
  "write_all [] w = Some ([], w)"
| "write_all (p # ps) w =
     (case ConstantWriter_write p w of
        None \<Rightarrow> None
      | Some (off, w') \<Rightarrow>
          (case write_all ps w' of
             None \<Rightarrow> None
           | Some (offs, w'') \<Rightarrow> Some (off # offs, w'')))"

text \<open>The bytes of \<open>n\<close> 64-bit integers, least significant byte first.\<close>

definition bytes_of_int64 :: "int \<Rightarrow> byte list" where
  "bytes_of_int64 x = map (\<lambda>i. word_of_int (x div 2 ^ (8 * i))) [0..<8]"

text \<open>
  What holds of the writer between two writes: an entry of the map is filed under the
  hash of its buffer, and its offset addresses that buffer's bytes in the stream.
\<close>

definition writer_inv :: "ConstantWriter \<Rightarrow> bool" where
  "writer_inv w =
     (\<forall>h pos q. m_hash_to_file_positions w h = Some (pos, q) \<longrightarrow>
        hash_combine q = h \<and> 0 \<le> pos \<and> nat pos + length q \<le> length (m_binary_output w) \<and>
        take (length q) (drop (nat pos) (m_binary_output w)) = q)"


section \<open>The IR serializer (ngraph/core/src/pass/serialize.cpp)\<close>

subsection \<open>The document and the errors\<close>

text \<open>
  The pugixml document is a tree of elements with attributes in the order they were
  appended. \<open>set_value\<close> is overloaded: the model keeps the integer or the string the
  code passes. An exception is a value: \<open>ngraph_error\<close> and the \<open>CheckFailure\<close> that
  \<open>NGRAPH_CHECK\<close> throws are different classes, and the handler of
  \<open>Serialize::run_on_function\<close> catches the second only.
\<close>

datatype xml_value = Text string | Number int

datatype xml_node =
  Element string "(string \<times> xml_value) list" "xml_node list"
  | PCData string

datatype error =
  ngraph_error string
  | CheckFailure string
  | UndefinedRead

fun xml_tag :: "xml_node \<Rightarrow> string" where
  "xml_tag (Element t _ _) = t"
| "xml_tag (PCData _) = []"

fun xml_attributes :: "xml_node \<Rightarrow> (string \<times> xml_value) list" where
  "xml_attributes (Element _ as _) = as"
| "xml_attributes (PCData _) = []"

fun xml_children :: "xml_node \<Rightarrow> xml_node list" where
  "xml_children (Element _ _ cs) = cs"
| "xml_children (PCData _) = []"

definition attribute :: "xml_node \<Rightarrow> string \<Rightarrow> xml_value option" where
  "attribute n name = map_of (xml_attributes n) name"

definition child :: "xml_node \<Rightarrow> string \<Rightarrow> xml_node option" where
  "child n name = find (\<lambda>c. xml_tag c = name) (xml_children n)"

text \<open>The children of the child called \<open>name\<close>, none when there is no such child.\<close>

definition children_of :: "xml_node \<Rightarrow> string \<Rightarrow> xml_node list" where
  "children_of n name = (case child n name of None \<Rightarrow> [] | Some c \<Rightarrow> xml_children c)"

subsection \<open>Decimal printing\<close>

text \<open>The character of a decimal digit; 48 is the code of the character 0.\<close>

definition digit_char :: "nat \<Rightarrow> char" where
  "digit_char d = char_of (48 + d)"

function string_of_nat :: "nat \<Rightarrow> string" where
  "string_of_nat n =
     (if 10 \<le> n then string_of_nat (n div 10) @ [digit_char (n mod 10)] else [digit_char n])"
  by pat_completeness auto
termination
  by (relation "measure (\<lambda>n. n)") auto

declare string_of_nat.simps [simp del]

text \<open>\<open>std::to_string\<close> on a signed integer.\<close>

definition to_string :: "int \<Rightarrow> string" where
  "to_string i = (if i < 0 then CHR ''-'' # string_of_nat (nat (- i)) else string_of_nat (nat i))"

text \<open>The value of a string of digits, to show that printing loses nothing.\<close>

definition nat_of_digits :: "string \<Rightarrow> nat" where
  "nat_of_digits s = foldl (\<lambda>a c. 10 * a + (of_char c - 48)) 0 s"

subsection \<open>Nodes and functions\<close>

text \<open>
  A node is identified by its address, a number here. An input refers to the output of
  its producer by the producer's address and the index of the output.
\<close>

type_synonym node_ptr = nat

datatype Type_t =
  t_undefined | t_dynamic | t_boolean | t_bf16 | t_f16 | t_f32 | t_f64
  | t_i4 | t_i8 | t_i16 | t_i32 | t_i64 | t_u1 | t_u4 | t_u8 | t_u16 | t_u32 | t_u64

text \<open>
  A runtime attribute (a \<open>Variant\<close>). \<open>variant_string\<close> is its value when it is a
  \<open>VariantImpl<std::string>\<close>; \<open>variant_visit\<close> is what its
  \<open>visit_attributes\<close> shows, \<open>None\<close> when that returns false. A shown value has one
  of the types the \<open>RTInfoSerializer\<close> prints, or one it has no printer for, or it is a
  function, which the serializer refuses.
\<close>

datatype rt_value = Printable string | NotPrintable | FunctionValue

record Variant =
  variant_type_name :: string
  variant_version :: string
  variant_string :: "string option"
  variant_visit :: "(string \<times> rt_value) list option"

text \<open>An \<open>RTMap\<close> is a \<open>std::map\<close>: its entries in the order of their keys.\<close>

type_synonym RTMap = "(string \<times> Variant) list"

record Input =
  source_node :: node_ptr
  source_index :: nat
  input_element_type :: Type_t
  input_partial_shape :: "Dimension list"
  input_rt_info :: RTMap

text \<open>The tensor names of an output are a set; the model lists its elements.\<close>

record Output =
  output_element_type :: Type_t
  output_partial_shape :: "Dimension list"
  tensor_names :: "string list"
  output_rt_info :: RTMap

text \<open>
  What a node's \<open>visit_attributes\<close> shows to the \<open>XmlSerializer\<close>: a value of one of
  the scalar, string or vector types, printed as it is; the buffer of a constant; or a value
  of a type the serializer has no case for. Bodies of sub-graph operations and framework
  node attributes are left out of the model.
\<close>

datatype node_attribute =
  Value string xml_value
  | AlignedBuffer string "byte list"
  | UnsupportedType string

datatype node_kind = Parameter | Result | Sink | Operation

text \<open>
  \<open>visited\<close> is \<open>None\<close> when \<open>visit_attributes\<close> returns false. \<open>opset_name\<close> is
  what \<open>get_opset_name\<close> returns for the node and the custom opsets of the run; it is
  computed from the type information and the runtime attributes, never from a name.
  The attributes are taken as they are after \<open>auto_pad_resolving\<close> and the shapes as
  they are after \<open>resolve_dynamic_shapes\<close>, both of which work on code that is not
  part of the files at hand.
\<close>

record Node =
  address :: node_ptr
  type_name :: string
  type_version :: nat
  kind :: node_kind
  m_friendly_name :: string
  m_unique_name :: string
  inputs :: "Input list"
  outputs :: "Output list"
  rt_info :: RTMap
  opset_name :: string
  visited :: "node_attribute list option"

text \<open>
  A function with the lists its accessors return: \<open>get_ordered_ops\<close> (the topological
  order), \<open>get_parameters\<close>, \<open>get_sinks\<close> and \<open>get_results\<close>.
\<close>

record Function =
  fn_friendly_name :: string
  fn_unique_name :: string
  ordered_ops :: "Node list"
  parameters :: "Node list"
  sinks :: "Node list"
  results :: "Node list"
  fn_rt_info_version :: "int option"

definition get_name :: "Node \<Rightarrow> string" where
  "get_name n = m_unique_name n"

definition get_friendly_name :: "Node \<Rightarrow> string" where
  "get_friendly_name n = (if m_friendly_name n = [] then get_name n else m_friendly_name n)"

definition fn_get_friendly_name :: "Function \<Rightarrow> string" where
  "fn_get_friendly_name f = (if fn_friendly_name f = [] then fn_unique_name f else fn_friendly_name f)"

definition is_parameter :: "Node \<Rightarrow> bool" where
  "is_parameter n = (kind n = Parameter)"

definition is_output :: "Node \<Rightarrow> bool" where
  "is_output n = (kind n = Result)"

definition is_sink :: "Node \<Rightarrow> bool" where
  "is_sink n = (kind n = Sink)"

text \<open>
  The test for the version 0 LSTM cell. The layer loop asks
  a \<open>dynamic_cast\<close> to \<open>opset1::LSTMCell\<close>, the edge loop compares the type
  information with the name LSTMCell and the version 0; the class is the one with that type
  information.
\<close>

definition is_LSTMCell_v0 :: "Node \<Rightarrow> bool" where
  "is_LSTMCell_v0 n = (type_name n = ''LSTMCell'' \<and> type_version n = 0)"

subsection \<open>Helpers of the serializer\<close>

definition translate_type_name :: "string \<Rightarrow> string" where
  "translate_type_name name =
     (case map_of [(''Constant'', ''Const''), (''PRelu'', ''PReLU''), (''Relu'', ''ReLU''),
                   (''Softmax'', ''SoftMax'')] name of
        Some t \<Rightarrow> t
      | None \<Rightarrow> name)"

fun get_precision_name :: "Type_t \<Rightarrow> string" where
  "get_precision_name t_undefined = ''UNSPECIFIED''"
| "get_precision_name t_dynamic = ''UNSPECIFIED''"
| "get_precision_name t_f16 = ''FP16''"
| "get_precision_name t_f32 = ''FP32''"
| "get_precision_name t_bf16 = ''BF16''"
| "get_precision_name t_f64 = ''FP64''"
| "get_precision_name t_i4 = ''I4''"
| "get_precision_name t_i8 = ''I8''"
| "get_precision_name t_i16 = ''I16''"
| "get_precision_name t_i32 = ''I32''"
| "get_precision_name t_i64 = ''I64''"
| "get_precision_name t_u4 = ''U4''"
| "get_precision_name t_u8 = ''U8''"
| "get_precision_name t_u16 = ''U16''"
| "get_precision_name t_u32 = ''U32''"
| "get_precision_name t_u64 = ''U64''"
| "get_precision_name t_u1 = ''BIN''"
| "get_precision_name t_boolean = ''BOOL''"

text \<open>\<open>escape_delim\<close> with the comma: every comma gets a backslash before it.\<close>

definition escape_delim :: "string \<Rightarrow> string" where
  "escape_delim name = concat (map (\<lambda>c. if c = CHR '','' then [CHR 0x5C, c] else [c]) name)"

text \<open>
  \<open>generate_unique_name\<close> tries the suffixes from \<open>suffix\<close> on. It ends because
  the names taken are finitely many and different suffixes give different names.
\<close>

function generate_unique_name :: "string list \<Rightarrow> string \<Rightarrow> nat \<Rightarrow> string" where
  "generate_unique_name unique_names base_name suffix =
     (if base_name @ to_string (int suffix) \<notin> set unique_names
      then base_name @ to_string (int suffix)
      else generate_unique_name unique_names base_name (suffix + 1))"
  by pat_completeness auto


definition is_name_auto_generated :: "Node \<Rightarrow> bool" where
  "is_name_auto_generated n = (get_friendly_name n = get_name n)"

definition fn_is_name_auto_generated :: "Function \<Rightarrow> bool" where
  "fn_is_name_auto_generated f = (fn_get_friendly_name f = fn_unique_name f)"

text \<open>\<open>get_node_unique_name\<close>: the name, and the set of names with it inserted.\<close>

definition get_node_unique_name :: "string list \<Rightarrow> Node \<Rightarrow> string \<times> string list" where
  "get_node_unique_name unique_names n =
     (let name = get_friendly_name n;
          name' = (if name \<in> set unique_names then generate_unique_name unique_names name 0
                   else name)
      in (name', name' # unique_names))"

subsection \<open>Runtime information\<close>

text \<open>
  One call of \<open>RTInfoSerializer::on_adapter\<close>: the attribute it appends, or the exception.
  The key is checked first, except for a function value.
\<close>

fun rt_on_adapter :: "string \<times> rt_value \<Rightarrow> error + (string \<times> xml_value)" where
  "rt_on_adapter (name, FunctionValue) =
     Inl (ngraph_error ''Function type is unsupported for rt info serialization'')"
| "rt_on_adapter (name, v) =
     (if name = ''name'' \<or> name = ''version''
      then Inl (ngraph_error (''Attribute key with name: '' @ name @
                  '' is not allowed. Please use another name''))
      else case v of
        Printable s \<Rightarrow> Inr (name, Text s)
      | _ \<Rightarrow> Inl (ngraph_error (''Unsupported attribute type for serialization: '' @ name)))"

fun rt_visit :: "(string \<times> rt_value) list \<Rightarrow> error + (string \<times> xml_value) list" where
  "rt_visit [] = Inr []"
| "rt_visit (a # rest) =
     (case rt_on_adapter a of
        Inl e \<Rightarrow> Inl e
      | Inr x \<Rightarrow> (case rt_visit rest of Inl e \<Rightarrow> Inl e | Inr xs \<Rightarrow> Inr (x # xs)))"

text \<open>
  The loop of the lambda \<open>append_runtime_info\<close>: one \<open>attribute\<close> element for each
  runtime attribute whose \<open>visit_attributes\<close> returns true.
\<close>

fun runtime_attributes :: "RTMap \<Rightarrow> error + xml_node list" where
  "runtime_attributes [] = Inr []"
| "runtime_attributes ((key, item) # rest) =
     (case variant_visit item of
        None \<Rightarrow> runtime_attributes rest
      | Some shown \<Rightarrow>
          (case rt_visit shown of
             Inl e \<Rightarrow> Inl e
           | Inr as \<Rightarrow>
               (case runtime_attributes rest of
                  Inl e \<Rightarrow> Inl e
                | Inr xs \<Rightarrow>
                    Inr (Element ''attribute''
                           ([(''name'', Text (variant_type_name item)),
                             (''version'', Text (variant_version item))] @ as) [] # xs))))"

text \<open>The \<open>rt_info\<close> child is removed again when it got no attribute.\<close>

definition append_runtime_info :: "RTMap \<Rightarrow> error + xml_node list" where
  "append_runtime_info attributes =
     (case runtime_attributes attributes of
        Inl e \<Rightarrow> Inl e
      | Inr xs \<Rightarrow> Inr (if xs = [] then [] else [Element ''rt_info'' [] xs]))"

text \<open>The runtime information is written for version 11 and later only.\<close>

definition versioned_runtime_info :: "int \<Rightarrow> RTMap \<Rightarrow> error + xml_node list" where
  "versioned_runtime_info version attributes =
     (if version \<ge> 11 then append_runtime_info attributes else Inr [])"

subsection \<open>Ports\<close>

definition dim_elements :: "Dimension list \<Rightarrow> xml_node list" where
  "dim_elements shape =
     map (\<lambda>d. Element ''dim'' [] [PCData (if \<not> is_static d then ''-1'' else to_string (min_val d))])
       shape"

text \<open>
  The loop over the inputs of a node: \<open>index\<close> is \<open>i.get_index()\<close>, \<open>lstm\<close> the result
  of the cast to the version 0 LSTM cell. The result has the port elements and the port
  counter after the loop.
\<close>

fun input_ports ::
  "int \<Rightarrow> bool \<Rightarrow> nat \<Rightarrow> nat \<Rightarrow> Input list \<Rightarrow> error + (xml_node list \<times> nat)" where
  "input_ports version lstm index port_id [] = Inr ([], port_id)"
| "input_ports version lstm index port_id (i # rest) =
     (if index = 6 \<and> lstm then input_ports version lstm (index + 1) (port_id + 1) rest
      else case versioned_runtime_info version (input_rt_info i) of
        Inl e \<Rightarrow> Inl e
      | Inr rt \<Rightarrow>
          (case input_ports version lstm (index + 1) (port_id + 1) rest of
             Inl e \<Rightarrow> Inl e
           | Inr (ports, next_id) \<Rightarrow>
               Inr (Element ''port''
                      [(''id'', Number (int port_id)),
                       (''precision'', Text (get_precision_name (input_element_type i)))]
                      (dim_elements (input_partial_shape i) @ rt) # ports, next_id)))"

text \<open>The tensor names of an output: sorted, escaped and joined with commas.\<close>

definition joined_names :: "string list \<Rightarrow> string" where
  "joined_names names_of_tensor =
     foldl (\<lambda>names name. (if names \<noteq> [] then names @ '','' else names) @ escape_delim name) []
       (sort names_of_tensor)"

fun output_ports :: "int \<Rightarrow> nat \<Rightarrow> Output list \<Rightarrow> error + xml_node list" where
  "output_ports version port_id [] = Inr []"
| "output_ports version port_id (ou # rest) =
     (case versioned_runtime_info version (output_rt_info ou) of
        Inl e \<Rightarrow> Inl e
      | Inr rt \<Rightarrow>
          (case output_ports version (port_id + 1) rest of
             Inl e \<Rightarrow> Inl e
           | Inr ports \<Rightarrow>
               Inr (Element ''port''
                      ([(''id'', Number (int port_id)),
                        (''precision'', Text (get_precision_name (output_element_type ou)))] @
                       (if joined_names (tensor_names ou) \<noteq> []
                        then [(''names'', Text (joined_names (tensor_names ou)))] else []))
                      (dim_elements (output_partial_shape ou) @ rt) # ports)))"

subsection \<open>The attributes of a node\<close>

text \<open>
  One call of \<open>XmlSerializer::on_adapter\<close> on the \<open>data\<close> element: the attributes it
  appends and the writer after it. The buffer of a constant goes to the writer.
\<close>

fun on_adapter ::
  "string \<Rightarrow> node_attribute \<Rightarrow> ConstantWriter \<Rightarrow>
   error + ((string \<times> xml_value) list \<times> ConstantWriter)" where
  "on_adapter node_type_name (Value name v) cw = Inr ([(name, v)], cw)"
| "on_adapter node_type_name (AlignedBuffer name buf) cw =
     (if name = ''value'' \<and> translate_type_name node_type_name = ''Const''
      then case ConstantWriter_write buf cw of
             None \<Rightarrow> Inl UndefinedRead
           | Some (offset, cw') \<Rightarrow>
               Inr ([(''offset'', Number offset), (''size'', Number (int (length buf)))], cw')
      else Inr ([], cw))"
| "on_adapter node_type_name (UnsupportedType name) cw =
     Inl (ngraph_error (''Unsupported attribute type for serialization: '' @ name))"

fun visit_attributes ::
  "string \<Rightarrow> node_attribute list \<Rightarrow> ConstantWriter \<Rightarrow>
   error + ((string \<times> xml_value) list \<times> ConstantWriter)" where
  "visit_attributes node_type_name [] cw = Inr ([], cw)"
| "visit_attributes node_type_name (a # rest) cw =
     (case on_adapter node_type_name a cw of
        Inl e \<Rightarrow> Inl e
      | Inr (xs, cw') \<Rightarrow>
          (case visit_attributes node_type_name rest cw' of
             Inl e \<Rightarrow> Inl e
           | Inr (ys, cw'') \<Rightarrow> Inr (xs @ ys, cw'')))"

text \<open>\<open>rt_info::XmlSerializer::serialize\<close>: the two runtime attributes kept in \<open>data\<close>.\<close>

definition rt_info_serialize :: "RTMap \<Rightarrow> (string \<times> xml_value) list" where
  "rt_info_serialize rt =
     concat (map (\<lambda>rt_info_name.
        case map_of rt rt_info_name of
          None \<Rightarrow> []
        | Some v \<Rightarrow> (case variant_string v of None \<Rightarrow> [] | Some s \<Rightarrow> [(rt_info_name, Text s)]))
       [''PrimitivesPriority'', ''alt_width''])"

definition is_exec_graph :: "Function \<Rightarrow> bool" where
  "is_exec_graph f = (\<exists>op \<in> set (ordered_ops f). map_of (rt_info op) ''execTimeMcs'' \<noteq> None)"

text \<open>
  \<open>visit_exec_graph_node\<close>: the string runtime attributes go to \<open>data\<close>, but
  \<open>layerType\<close> replaces the type of the layer; the last one wins.
\<close>

definition exec_graph_data :: "RTMap \<Rightarrow> (string \<times> xml_value) list" where
  "exec_graph_data rt =
     concat (map (\<lambda>(name, v).
        case variant_string v of
          None \<Rightarrow> []
        | Some s \<Rightarrow> (if name = ''layerType'' then [] else [(name, Text s)])) rt)"

definition exec_graph_type :: "RTMap \<Rightarrow> string option" where
  "exec_graph_type rt =
     (case filter (\<lambda>(name, v). name = ''layerType'' \<and> variant_string v \<noteq> None) rt of
        [] \<Rightarrow> None
      | hits \<Rightarrow> variant_string (snd (last hits)))"

subsection \<open>Layers\<close>

text \<open>
  The children of a layer in their final order. \<open>data\<close> is appended first, then the
  runtime information, the input block and the output block; a tensor iterator or a loop
  moves its input block to the front and its output block behind the first child; in the
  end \<open>data\<close> is removed when it has no attribute.
\<close>

definition layer_children ::
  "string \<Rightarrow> xml_node list \<Rightarrow> xml_node list \<Rightarrow> xml_node list \<Rightarrow> xml_node list \<Rightarrow> xml_node list" where
  "layer_children node_type_name data layer_rt input output =
     (if node_type_name = ''TensorIterator'' \<or> node_type_name = ''Loop''
      then (if input \<noteq> [] then input @ output @ data @ layer_rt else data @ output @ layer_rt)
      else data @ layer_rt @ input @ output)"

text \<open>
  The body of the loop over the sorted operations, for one node: the layer element, the
  names taken so far and the writer.
\<close>

definition layer ::
  "(node_ptr \<Rightarrow> int option) \<Rightarrow> int \<Rightarrow> bool \<Rightarrow> bool \<Rightarrow> Node \<Rightarrow> string list \<Rightarrow> ConstantWriter \<Rightarrow>
   error + (xml_node \<times> string list \<times> ConstantWriter)" where
  "layer layer_ids version deterministic exec_graph node unique_names cw =
     (case layer_ids (address node) of
        None \<Rightarrow> Inl (CheckFailure ''Internal error'')
      | Some layer_id \<Rightarrow>
     (let named = (\<not> deterministic \<or> \<not> is_name_auto_generated node);
          name = fst (get_node_unique_name unique_names node);
          unique_names' = (if named then snd (get_node_unique_name unique_names node)
                           else unique_names);
          layer_type = (case (if exec_graph then exec_graph_type (rt_info node) else None) of
                          None \<Rightarrow> translate_type_name (type_name node)
                        | Some t \<Rightarrow> t);
          layer_attributes =
            [(''id'', Number layer_id)] @ (if named then [(''name'', Text name)] else []) @
            [(''type'', Text layer_type)] @
            (if \<not> exec_graph then [(''version'', Text (opset_name node))] else [])
      in case versioned_runtime_info version (rt_info node) of
        Inl e \<Rightarrow> Inl e
      | Inr layer_rt \<Rightarrow>
      (case input_ports version (is_LSTMCell_v0 node) 0 0 (inputs node) of
        Inl e \<Rightarrow> Inl e
      | Inr (in_ports, port_id) \<Rightarrow>
      (case (if outputs node \<noteq> [] \<and> \<not> is_output node
             then output_ports version port_id (outputs node) else Inr []) of
        Inl e \<Rightarrow> Inl e
      | Inr out_ports \<Rightarrow>
      (case visited node of
        None \<Rightarrow> Inl (CheckFailure ''Visitor API is not supported'')
      | Some shown \<Rightarrow>
      (case visit_attributes (type_name node) shown cw of
        Inl e \<Rightarrow> Inl e
      | Inr (visited_attributes, cw') \<Rightarrow>
          (let data_attributes =
                 visited_attributes @ rt_info_serialize (rt_info node) @
                 (if exec_graph then exec_graph_data (rt_info node) else []);
               data = (if data_attributes = [] then [] else [Element ''data'' data_attributes []]);
               input = (if inputs node \<noteq> [] then [Element ''input'' [] in_ports] else []);
               output = (if outputs node \<noteq> [] \<and> \<not> is_output node
                         then [Element ''output'' [] out_ports] else [])
           in Inr (Element ''layer'' layer_attributes
                     (layer_children (type_name node) data layer_rt input output),
                   unique_names', cw'))))))))"

fun layers_loop ::
  "(node_ptr \<Rightarrow> int option) \<Rightarrow> int \<Rightarrow> bool \<Rightarrow> bool \<Rightarrow> Node list \<Rightarrow> string list \<Rightarrow> ConstantWriter \<Rightarrow>
   error + (xml_node list \<times> ConstantWriter)" where
  "layers_loop layer_ids version deterministic exec_graph [] unique_names cw = Inr ([], cw)"
| "layers_loop layer_ids version deterministic exec_graph (n # rest) unique_names cw =
     (case layer layer_ids version deterministic exec_graph n unique_names cw of
        Inl e \<Rightarrow> Inl e
      | Inr (l, unique_names', cw') \<Rightarrow>
          (case layers_loop layer_ids version deterministic exec_graph rest unique_names' cw' of
             Inl e \<Rightarrow> Inl e
           | Inr (ls, cw'') \<Rightarrow> Inr (l # ls, cw'')))"

subsection \<open>Layer identifiers and edges\<close>

record Edge =
  from_layer :: int
  from_port :: int
  to_layer :: int
  to_port :: int

text \<open>\<open>create_layer_ids\<close>: the position of each node in the topological order.\<close>

definition create_layer_ids :: "Function \<Rightarrow> node_ptr \<Rightarrow> int option" where
  "create_layer_ids f =
     fold (\<lambda>(node, i) layer_ids. layer_ids(address node \<mapsto> int i))
       (zip (ordered_ops f) [0..<length (ordered_ops f)]) Map.empty"

text \<open>
  The edges into one node. \<open>source_node->get_input_size()\<close> reads the producer
  through its address; the producer is a node of the function once the check on
  \<open>layer_ids\<close> has passed.
\<close>

fun node_edges ::
  "(node_ptr \<Rightarrow> int option) \<Rightarrow> Function \<Rightarrow> Node \<Rightarrow> nat \<Rightarrow> Input list \<Rightarrow> error + Edge list" where
  "node_edges layer_ids f current_node index [] = Inr []"
| "node_edges layer_ids f current_node index (i # rest) =
     (case (layer_ids (source_node i), layer_ids (address current_node),
            find (\<lambda>m. address m = source_node i) (ordered_ops f)) of
        (Some from_id, Some to_id, Some producer) \<Rightarrow>
          (case node_edges layer_ids f current_node (index + 1) rest of
             Inl e \<Rightarrow> Inl e
           | Inr es \<Rightarrow>
               Inr (\<lparr>from_layer = from_id,
                     from_port = int (length (inputs producer)) + int (source_index i),
                     to_layer = to_id, to_port = int index\<rparr> # es))
      | _ \<Rightarrow> Inl (CheckFailure ''Internal error''))"

fun all_edges :: "(node_ptr \<Rightarrow> int option) \<Rightarrow> Function \<Rightarrow> Node list \<Rightarrow> error + Edge list" where
  "all_edges layer_ids f [] = Inr []"
| "all_edges layer_ids f (node # rest) =
     (if is_parameter node then all_edges layer_ids f rest
      else case node_edges layer_ids f node 0 (inputs node) of
        Inl e \<Rightarrow> Inl e
      | Inr es \<Rightarrow>
          (case all_edges layer_ids f rest of Inl e \<Rightarrow> Inl e | Inr es' \<Rightarrow> Inr (es @ es')))"

text \<open>
  \<open>create_edge_mapping\<close>. \<open>std::sort\<close> orders by \<open>from_layer\<close> and is free in the order
  of edges with the same \<open>from_layer\<close>; the model sorts stably. What is proved of the
  edge list uses that it is sorted by the key and has the same edges only.
\<close>

definition create_edge_mapping :: "(node_ptr \<Rightarrow> int option) \<Rightarrow> Function \<Rightarrow> error + Edge list" where
  "create_edge_mapping layer_ids f =
     (case all_edges layer_ids f (ordered_ops f) of
        Inl e \<Rightarrow> Inl e
      | Inr edges \<Rightarrow> Inr (sort_key from_layer edges))"

text \<open>The edges that are written: the peephole input of a version 0 LSTM cell is left out.\<close>

definition skipped_edge :: "Function \<Rightarrow> Edge \<Rightarrow> bool" where
  "skipped_edge f e =
     (to_port e = 6 \<and> is_LSTMCell_v0 (ordered_ops f ! nat (to_layer e)))"

definition edge_xml :: "Edge \<Rightarrow> xml_node" where
  "edge_xml e =
     Element ''edge''
       [(''from-layer'', Number (from_layer e)), (''from-port'', Number (from_port e)),
        (''to-layer'', Number (to_layer e)), (''to-port'', Number (to_port e))] []"

subsection \<open>\<open>ngfunction_2_ir\<close>\<close>

text \<open>The order of the layers: regrouped from version 11 on.\<close>

definition sorted_ops :: "Function \<Rightarrow> int \<Rightarrow> Node list" where
  "sorted_ops f version =
     (if version \<ge> 11
      then parameters f @
           filter (\<lambda>node. \<not> is_parameter node \<and> \<not> is_output node \<and> \<not> is_sink node) (ordered_ops f) @
           sinks f @ results f
      else ordered_ops f)"

definition ngfunction_2_ir ::
  "Function \<Rightarrow> ConstantWriter \<Rightarrow> int \<Rightarrow> bool \<Rightarrow> error + (xml_node \<times> ConstantWriter)" where
  "ngfunction_2_ir f constant_node_write_handler version deterministic =
     (let net_attributes =
            (if \<not> deterministic \<or> \<not> fn_is_name_auto_generated f
             then [(''name'', Text (fn_get_friendly_name f))] else []) @
            [(''version'', Number version)];
          layer_ids = create_layer_ids f;
          exec_graph = is_exec_graph f
      in case layers_loop layer_ids version deterministic exec_graph (sorted_ops f version) []
                constant_node_write_handler of
        Inl e \<Rightarrow> Inl e
      | Inr (layers, cw) \<Rightarrow>
          (case create_edge_mapping layer_ids f of
             Inl e \<Rightarrow> Inl e
           | Inr edge_mapping \<Rightarrow>
               Inr (Element ''net'' net_attributes
                      [Element ''layers'' [] layers,
                       Element ''edges'' []
                         (map edge_xml (filter (\<lambda>e. \<not> skipped_edge f e) edge_mapping))],
                    cw)))"


subsection \<open>Reading the document back\<close>

text \<open>
  The ports of a layer, those of the input block before those of the output block, the
  port of a layer with a given number, and the runtime information a port carries.
\<close>

definition ports_of :: "xml_node \<Rightarrow> xml_node list" where
  "ports_of l = children_of l ''input'' @ children_of l ''output''"

definition has_id :: "int \<Rightarrow> xml_node \<Rightarrow> bool" where
  "has_id i p = (attribute p ''id'' = Some (Number i))"

definition port_by_id :: "xml_node \<Rightarrow> int \<Rightarrow> xml_node option" where
  "port_by_id l i = find (has_id i) (ports_of l)"

definition port_rt_info :: "xml_node \<Rightarrow> xml_node list" where
  "port_rt_info p = filter (\<lambda>c. xml_tag c = ''rt_info'') (xml_children p)"

subsection \<open>Well-formed functions\<close>

text \<open>
  The lists of a function hold pointers: two entries with the same address are the same
  node. The topological order has every node once, the parameters, sinks and results of
  the order are in the lists of the function, and an input refers to an output its
  producer has. This is what the record of a \<open>Function\<close> must satisfy to stand for
  a graph in memory.
\<close>

definition function_nodes :: "Function \<Rightarrow> Node list" where
  "function_nodes f = ordered_ops f @ parameters f @ sinks f @ results f"

definition wf_function :: "Function \<Rightarrow> bool" where
  "wf_function f =
     ((\<forall>a \<in> set (function_nodes f). \<forall>b \<in> set (function_nodes f). address a = address b \<longrightarrow> a = b) \<and>
      distinct (ordered_ops f) \<and>
      (\<forall>n \<in> set (ordered_ops f).
         (is_parameter n \<longrightarrow> n \<in> set (parameters f)) \<and>
         (is_sink n \<longrightarrow> n \<in> set (sinks f)) \<and>
         (is_output n \<longrightarrow> n \<in> set (results f)) \<and>
         (\<forall>i \<in> set (inputs n). \<forall>p \<in> set (ordered_ops f).
            address p = source_node i \<longrightarrow> source_index i < length (outputs p))))"

subsection \<open>Small graphs used as examples\<close>

definition example_output :: Output where
  "example_output =
     \<lparr>output_element_type = t_f32, output_partial_shape = [Dimension_of 2],
      tensor_names = [], output_rt_info = []\<rparr>"

definition example_input :: "node_ptr \<Rightarrow> Input" where
  "example_input producer =
     \<lparr>source_node = producer, source_index = 0, input_element_type = t_f32,
      input_partial_shape = [Dimension_of 2], input_rt_info = []\<rparr>"

definition example_node ::
  "node_ptr \<Rightarrow> string \<Rightarrow> node_kind \<Rightarrow> string \<Rightarrow> string \<Rightarrow> node_ptr list \<Rightarrow> Node" where
  "example_node a t k friendly unique producers =
     \<lparr>address = a, type_name = t, type_version = 0, kind = k, m_friendly_name = friendly,
      m_unique_name = unique, inputs = map example_input producers, outputs = [example_output],
      rt_info = [], opset_name = ''opset1'', visited = Some []\<rparr>"

text \<open>A parameter, a version 0 LSTM cell with seven inputs, and a result.\<close>

definition lstm_nodes :: "Node list" where
  "lstm_nodes =
     [example_node 10 ''Parameter'' Parameter ''x'' ''Parameter_0'' [],
      example_node 20 ''LSTMCell'' Operation ''cell'' ''LSTMCell_1'' [10, 10, 10, 10, 10, 10, 10],
      example_node 30 ''Result'' Result ''y'' ''Result_2'' [20]]"

definition lstm_function :: Function where
  "lstm_function =
     \<lparr>fn_friendly_name = ''net'', fn_unique_name = ''Function_3'', ordered_ops = lstm_nodes,
      parameters = [lstm_nodes ! 0], sinks = [], results = [lstm_nodes ! 2],
      fn_rt_info_version = None\<rparr>"

text \<open>
  Two parameters and two results, declared in another order than the topological one:
  the order is first parameter, its result, second parameter, a Relu, its result.
\<close>

definition two_branch_nodes :: "Node list" where
  "two_branch_nodes =
     [example_node 10 ''Parameter'' Parameter ''a'' ''Parameter_0'' [],
      example_node 20 ''Result'' Result ''ra'' ''Result_1'' [10],
      example_node 30 ''Parameter'' Parameter ''b'' ''Parameter_2'' [],
      example_node 40 ''Relu'' Operation ''act'' ''Relu_3'' [30],
      example_node 50 ''Result'' Result ''rb'' ''Result_4'' [40]]"

definition two_branch_function :: Function where
  "two_branch_function =
     \<lparr>fn_friendly_name = ''net'', fn_unique_name = ''Function_5'', ordered_ops = two_branch_nodes,
      parameters = [two_branch_nodes ! 2, two_branch_nodes ! 0], sinks = [],
      results = [two_branch_nodes ! 4, two_branch_nodes ! 1], fn_rt_info_version = None\<rparr>"

text \<open>A result whose output is read by a Relu.\<close>

definition consumed_result_nodes :: "Node list" where
  "consumed_result_nodes =
     [example_node 10 ''Parameter'' Parameter ''a'' ''Parameter_0'' [],
      example_node 20 ''Result'' Result ''ra'' ''Result_1'' [10],
      example_node 30 ''Relu'' Operation ''act'' ''Relu_2'' [20],
      example_node 40 ''Result'' Result ''rb'' ''Result_3'' [30]]"

definition consumed_result_function :: Function where
  "consumed_result_function =
     \<lparr>fn_friendly_name = ''net'', fn_unique_name = ''Function_4'',
      ordered_ops = consumed_result_nodes,
      parameters = [consumed_result_nodes ! 0], sinks = [],
      results = [consumed_result_nodes ! 1, consumed_result_nodes ! 3], fn_rt_info_version = None\<rparr>"


section \<open>Serializing to files (\<open>serializeFunc\<close> and \<open>Serialize::run_on_function\<close>)\<close>

text \<open>
  The values of the enumeration \<open>Serialize::Version\<close>, as the serializer uses them
  after the cast to \<open>int64_t\<close>: version 10 and version 11 are the two supported
  versions, and an unspecified version stands for the newest.
\<close>

definition UNSPECIFIED :: int where
  "UNSPECIFIED = 0"

definition IR_V10 :: int where
  "IR_V10 = 10"

definition IR_V11 :: int where
  "IR_V11 = 11"

text \<open>
  \<open>serializeFunc\<close>. The result of a successful run is the document that is saved to
  the xml stream and the bytes that went to the binary stream. A failure comes with the
  information whether the writer was already at work on the binary stream: the two
  version errors are thrown before the writer is made. The version hint of the function is
  the entry \<open>version\<close> of its runtime information.
\<close>

definition serializeFunc ::
  "Function \<Rightarrow> int \<Rightarrow> bool \<Rightarrow> (error \<times> bool) + (xml_node \<times> byte list)" where
  "serializeFunc f ver deterministic =
     (let version = (case fn_rt_info_version f of Some v \<Rightarrow> v | None \<Rightarrow> ver)
      in if version \<noteq> ver \<and> ver \<noteq> UNSPECIFIED
         then Inl (ngraph_error ''Cannot serialize function to incompatible IR version'', False)
         else let version' = (if version = UNSPECIFIED then IR_V11 else version)
           in if version' \<noteq> IR_V10 \<and> version' \<noteq> IR_V11
              then Inl (ngraph_error ''Unsupported version'', False)
              else case ngfunction_2_ir f (ConstantWriter_new 0 True) version' deterministic of
                     Inl e \<Rightarrow> Inl (e, True)
                   | Inr (net, cw) \<Rightarrow> Inr (net, m_binary_output cw))"

text \<open>
  The files. A file holds bytes, or a saved document, whose printing by pugixml is not
  modelled, or what a failed run left in it, a part of the payload that the model does not
  track. \<open>can_open\<close> tells whether opening a path for writing succeeds.
\<close>

datatype file_content = Bytes "byte list" | Document xml_node | PartlyWritten

record FileSystem =
  files :: "string \<Rightarrow> file_content option"
  can_open :: "string \<Rightarrow> bool"

text \<open>\<open>std::ofstream(path, std::ios::out)\<close> makes the file or empties it.\<close>

definition open_ofstream :: "string \<Rightarrow> FileSystem \<Rightarrow> FileSystem option" where
  "open_ofstream path fs =
     (if can_open fs path then Some (fs\<lparr>files := (files fs)(path \<mapsto> Bytes [])\<rparr>) else None)"

definition remove_file :: "string \<Rightarrow> FileSystem \<Rightarrow> FileSystem" where
  "remove_file path fs = fs\<lparr>files := (files fs)(path := None)\<rparr>"

definition quoted :: "string \<Rightarrow> string" where
  "quoted s = [CHR 0x22] @ s @ [CHR 0x22]"

record Serialize =
  m_xmlPath :: string
  m_binPath :: string
  m_version :: int

text \<open>
  The branch of \<open>run_on_function\<close> that writes to the two paths. The two checks that
  the files are open stand before the \<open>try\<close> block; the handler catches
  \<open>CheckFailure\<close>, removes both files and throws again; any other exception passes it
  by. \<open>ngraph_error\<close> is the base class of \<open>CheckFailure\<close>, so that an
  \<open>ngraph_error\<close> thrown as such is not caught. The message of a failed check is
  given without the position in the source that the macro puts before it.
\<close>

definition run_on_function ::
  "Serialize \<Rightarrow> Function \<Rightarrow> FileSystem \<Rightarrow> (error + bool) \<times> FileSystem" where
  "run_on_function p f fs =
     (case open_ofstream (m_binPath p) fs of
        None \<Rightarrow> (Inl (CheckFailure (''Can't open bin file: '' @ quoted (m_binPath p))), fs)
      | Some fs1 \<Rightarrow>
          (case open_ofstream (m_xmlPath p) fs1 of
             None \<Rightarrow> (Inl (CheckFailure (''Can't open xml file: '' @ quoted (m_xmlPath p))), fs1)
           | Some fs2 \<Rightarrow>
               (case serializeFunc f (m_version p) False of
                  Inr (net, bin) \<Rightarrow>
                    (Inr False,
                     fs2\<lparr>files := (files fs2)(m_binPath p \<mapsto> Bytes bin, m_xmlPath p \<mapsto> Document net)\<rparr>)
                | Inl (CheckFailure msg, written) \<Rightarrow>
                    (Inl (CheckFailure msg), remove_file (m_binPath p) (remove_file (m_xmlPath p) fs2))
                | Inl (e, written) \<Rightarrow>
                    (Inl e,
                     if written then fs2\<lparr>files := (files fs2)(m_binPath p \<mapsto> PartlyWritten)\<rparr>
                     else fs2))))"

text \<open>An empty directory in which every path can be opened, or every path but one.\<close>

definition empty_directory :: FileSystem where
  "empty_directory = \<lparr>files = (\<lambda>path. None), can_open = (\<lambda>path. True)\<rparr>"

definition directory_without :: "string \<Rightarrow> FileSystem" where
  "directory_without locked = \<lparr>files = (\<lambda>path. None), can_open = (\<lambda>path. path \<noteq> locked)\<rparr>"

definition example_pass :: "int \<Rightarrow> Serialize" where
  "example_pass ver = \<lparr>m_xmlPath = ''model.xml'', m_binPath = ''model.bin'', m_version = ver\<rparr>"


section \<open>The rewrite \<open>AddFakeQuantizeFusion\<close>\<close>

text \<open>
  The graph that the callback of the matcher works on is a store of the nodes that are
  alive, by address; a new node gets the next address. A node has the type of its
  operation, its input values (the node and the index of the output that it reads), the
  element type and partial shape of each of its outputs, the elements of a Constant, the
  levels of a FakeQuantize, its friendly name and its runtime information. The users of
  a node are the nodes that read one of its outputs.
\<close>

datatype op_type =
  Constant | Add | FakeQuantize | Convolution | GroupConvolution | ConvolutionBackpropData
  | GroupConvolutionBackpropData | MatMul | Concat | Reshape | Subtract | Other string

record GraphNode =
  g_type :: op_type
  g_input_values :: "(node_ptr \<times> nat) list"
  g_outputs :: "(Type_t \<times> PartialShape) list"
  g_data :: "rat list"
  g_levels :: nat
  g_friendly_name :: string
  g_rt_info :: RTMap

record Graph =
  g_nodes :: "node_ptr \<Rightarrow> GraphNode option"
  g_next :: node_ptr

definition make_shared :: "GraphNode \<Rightarrow> Graph \<Rightarrow> node_ptr \<times> Graph" where
  "make_shared n g = (g_next g, g\<lparr>g_nodes := (g_nodes g)(g_next g \<mapsto> n), g_next := Suc (g_next g)\<rparr>)"

definition reads :: "node_ptr \<Rightarrow> GraphNode \<Rightarrow> bool" where
  "reads p n = list_ex (\<lambda>v. fst v = p) (g_input_values n)"

definition get_users :: "Graph \<Rightarrow> node_ptr \<Rightarrow> node_ptr list" where
  "get_users g p =
     filter (\<lambda>q. case g_nodes g q of None \<Rightarrow> False | Some n \<Rightarrow> reads p n) [0..<g_next g]"

definition output_of :: "Graph \<Rightarrow> node_ptr \<times> nat \<Rightarrow> (Type_t \<times> PartialShape) option" where
  "output_of g v =
     (case g_nodes g (fst v) of
        None \<Rightarrow> None
      | Some n \<Rightarrow> if snd v < length (g_outputs n) then Some (g_outputs n ! snd v) else None)"

definition is_type :: "Graph \<Rightarrow> op_type list \<Rightarrow> node_ptr \<Rightarrow> bool" where
  "is_type g ts p = (case g_nodes g p of None \<Rightarrow> False | Some n \<Rightarrow> g_type n \<in> set ts)"

text \<open>\<open>get_shape\<close> of a node: its first output's shape when that is static.\<close>

definition get_shape :: "GraphNode \<Rightarrow> nat list option" where
  "get_shape n =
     (case g_outputs n of
        (t, Some ds) # rest \<Rightarrow> if list_all is_static ds then Some (map (\<lambda>d. nat (min_val d)) ds) else None
      | _ \<Rightarrow> None)"

definition static_shape :: "nat list \<Rightarrow> PartialShape" where
  "static_shape s = Some (map (\<lambda>d. Dimension_of (int d)) s)"

definition shape_size :: "nat list \<Rightarrow> nat" where
  "shape_size s = prod_list s"

text \<open>
  What the callback takes from code that is not part of the pass: the width in bits of an
  element type, the test \<open>op::util::get_single_value\<close> of a Constant for one repeated
  value, the inference of the output of a Subtract from its two inputs (without a result
  when the constructor throws), and \<open>get_constant_from_source\<close>, which gives the
  Constant that an output folds to, if there is one.
\<close>

record Operations =
  bitwidth :: "Type_t \<Rightarrow> nat"
  get_single_value :: "GraphNode \<Rightarrow> rat option"
  infer_subtract :: "Type_t \<times> PartialShape \<Rightarrow> Type_t \<times> PartialShape \<Rightarrow> (Type_t \<times> PartialShape) option"
  get_constant_from_source :: "Graph \<Rightarrow> node_ptr \<Rightarrow> GraphNode option"

text \<open>The values that the matcher has bound to the four nodes of the pattern.\<close>

record Match =
  input_pattern :: "node_ptr \<times> nat"
  const_pattern :: node_ptr
  add_pattern :: node_ptr
  fq_pattern :: node_ptr

definition new_node :: "op_type \<Rightarrow> (node_ptr \<times> nat) list \<Rightarrow> (Type_t \<times> PartialShape) list \<Rightarrow> GraphNode" where
  "new_node t args outs =
     \<lparr>g_type = t, g_input_values = args, g_outputs = outs, g_data = [], g_levels = 0,
      g_friendly_name = [], g_rt_info = []\<rparr>"

definition new_constant :: "Type_t \<Rightarrow> nat list \<Rightarrow> rat list \<Rightarrow> GraphNode" where
  "new_constant t s vs = (new_node Constant [] [(t, static_shape s)])\<lparr>g_data := vs\<rparr>"

text \<open>
  Lines 44 to 55: the constant to subtract. For a Constant of more than one element that
  repeats one value a Constant of shape \<open>{1}\<close> is made. The result is whether the
  constant is a single value, the node that stands for it and the graph.
\<close>

definition single_value_constant ::
  "Operations \<Rightarrow> node_ptr \<Rightarrow> GraphNode \<Rightarrow> nat list \<Rightarrow> Graph \<Rightarrow> bool \<times> node_ptr \<times> Graph" where
  "single_value_constant ops add_const_ptr add_const const_shape g =
     (if shape_size const_shape = 1 then (True, add_const_ptr, g)
      else case get_single_value ops add_const of
             None \<Rightarrow> (False, add_const_ptr, g)
           | Some v \<Rightarrow>
               (let (p, g') = make_shared (new_constant (fst (hd (g_outputs add_const))) [1] [v]) g
                in (True, p, g')))"

text \<open>
  Lines 87 to 93: a constant of lower rank than the input of the FakeQuantize is reshaped,
  with ones in front. The length of a dynamic rank cannot be taken.
\<close>

definition reshape_constant ::
  "GraphNode \<Rightarrow> nat list \<Rightarrow> node_ptr \<Rightarrow> Graph \<Rightarrow> (node_ptr \<times> Graph) option" where
  "reshape_constant fq const_shape new_const g =
     (case output_of g (hd (g_input_values fq)) of
        Some (t, Some ds) \<Rightarrow>
          (if length const_shape < length ds
           then (let const_shape' = replicate (length ds - length const_shape) 1 @ const_shape;
                     (pattern, g1) =
                        make_shared (new_constant t_u64 [length const_shape'] (map of_nat const_shape')) g;
                     t = (case output_of g1 (new_const, 0) of Some out \<Rightarrow> fst out | None \<Rightarrow> t_undefined)
                 in Some (make_shared
                      (new_node Reshape [(new_const, 0), (pattern, 0)] [(t, static_shape const_shape')]) g1))
           else Some (new_const, g))
      | _ \<Rightarrow> None)"

text \<open>
  Lines 96 to 103: the new bound of the range, a Subtract, or the Constant that it folds to.
\<close>

definition subtract_constant ::
  "Operations \<Rightarrow> node_ptr \<times> nat \<Rightarrow> node_ptr \<Rightarrow> Graph \<Rightarrow> (node_ptr \<times> Graph) option" where
  "subtract_constant ops bound new_const g =
     (case (output_of g bound, output_of g (new_const, 0)) of
        (Some a, Some b) \<Rightarrow>
          (case infer_subtract ops a b of
             None \<Rightarrow> None
           | Some out \<Rightarrow>
               (let (sub, g1) = make_shared (new_node Subtract [bound, (new_const, 0)] [out]) g
                in case get_constant_from_source ops g1 sub of
                     None \<Rightarrow> Some (sub, g1)
                   | Some c \<Rightarrow> Some (make_shared c g1)))
      | _ \<Rightarrow> None)"

text \<open>
  \<open>copy_runtime_info\<close> gives each of the new nodes the runtime information of the old
  ones, and \<open>replace_node\<close> makes every reader of an output of the old node read the
  same output of the new one.

  Modelled from the spec: the callback ``swaps all of the matched node's consumers to read
  from the new replacement (replace-node operation), and copies/merges the provenance
  metadata (run-time info) from the old nodes into the new''.
\<close>

definition copy_runtime_info :: "node_ptr list \<Rightarrow> node_ptr list \<Rightarrow> Graph \<Rightarrow> Graph" where
  "copy_runtime_info from to g =
     (let merged = concat (map (\<lambda>p. case g_nodes g p of None \<Rightarrow> [] | Some n \<Rightarrow> g_rt_info n) from)
      in g\<lparr>g_nodes := (\<lambda>p. if p \<in> set to then map_option (\<lambda>n. n\<lparr>g_rt_info := merged\<rparr>) (g_nodes g p)
                           else g_nodes g p)\<rparr>)"

definition replace_node :: "node_ptr \<Rightarrow> node_ptr \<Rightarrow> Graph \<Rightarrow> Graph" where
  "replace_node target replacement g =
     g\<lparr>g_nodes := (\<lambda>p. map_option
        (\<lambda>n. n\<lparr>g_input_values := map (\<lambda>v. if fst v = target then (replacement, snd v) else v) (g_input_values n)\<rparr>)
        (g_nodes g p))\<rparr>"

text \<open>
  When the callback returns, its local pointers are gone: of the nodes that it has made,
  those live on that the new FakeQuantize reaches.
\<close>

fun reached :: "nat \<Rightarrow> Graph \<Rightarrow> node_ptr list \<Rightarrow> node_ptr list" where
  "reached 0 g ps = ps"
| "reached (Suc k) g ps =
     reached k g (remdups (ps @ concat (map
        (\<lambda>p. case g_nodes g p of None \<Rightarrow> [] | Some n \<Rightarrow> map fst (g_input_values n)) ps)))"

definition release_locals :: "node_ptr \<Rightarrow> node_ptr \<Rightarrow> Graph \<Rightarrow> Graph" where
  "release_locals first keep g =
     g\<lparr>g_nodes := (\<lambda>p. if first \<le> p \<and> p \<notin> set (reached (g_next g - first) g [keep]) then None
                         else g_nodes g p)\<rparr>"

text \<open>Lines 96 to 113: the new FakeQuantize takes the place of the old one.\<close>

definition fuse ::
  "Operations \<Rightarrow> Match \<Rightarrow> GraphNode \<Rightarrow> node_ptr \<Rightarrow> node_ptr \<Rightarrow> Graph \<Rightarrow> (bool \<times> Graph) option" where
  "fuse ops m fq new_const first g =
     (if length (g_input_values fq) \<noteq> 5 then None
      else case subtract_constant ops (g_input_values fq ! 1) new_const g of
        None \<Rightarrow> None
      | Some (new_input_low, g1) \<Rightarrow>
         (case subtract_constant ops (g_input_values fq ! 2) new_const g1 of
            None \<Rightarrow> None
          | Some (new_input_high, g2) \<Rightarrow>
             (case output_of g2 (input_pattern m) of
                None \<Rightarrow> None
              | Some out \<Rightarrow>
                 (let (new_fq, g3) = make_shared
                        ((new_node FakeQuantize
                            [input_pattern m, (new_input_low, 0), (new_input_high, 0),
                             g_input_values fq ! 3, g_input_values fq ! 4] [out])
                         \<lparr>g_levels := g_levels fq, g_friendly_name := g_friendly_name fq\<rparr>) g2;
                      g4 = copy_runtime_info [add_pattern m, fq_pattern m]
                             [new_input_low, new_input_high, new_fq] g3;
                      g5 = replace_node (fq_pattern m) new_fq g4
                  in Some (True, release_locals first new_fq g5)))))"

text \<open>
  The callback, lines 31 to 114. Its result is the value that it returns and the graph
  after it; there is no result when it throws or when the match names a node that is not
  in the graph. In a shape of more than one element the first extent can be read.
\<close>

definition callback :: "Operations \<Rightarrow> Match \<Rightarrow> Graph \<Rightarrow> (bool \<times> Graph) option" where
  "callback ops m g =
     (case output_of g (input_pattern m) of
        None \<Rightarrow> None
      | Some input \<Rightarrow>
         if bitwidth ops (fst input) < bitwidth ops t_f32 then Some (False, g)
         else case (g_nodes g (fq_pattern m), g_nodes g (add_pattern m), g_nodes g (const_pattern m)) of
           (Some fq, Some add_node, Some add_const) \<Rightarrow>
             if g_type fq \<noteq> FakeQuantize then Some (False, g)
             else if g_type add_const \<noteq> Constant then Some (False, g)
             else (case get_shape add_const of
               None \<Rightarrow> None
             | Some const_shape \<Rightarrow>
                (let const_shape_size = shape_size const_shape;
                     (is_single_value, new_const, g1) =
                        single_value_constant ops (const_pattern m) add_const const_shape g
                 in if is_single_value then fuse ops m fq new_const (g_next g) g1
                    else if \<not> (1 < const_shape ! 0 \<and> const_shape ! 0 = const_shape_size) \<and>
                            \<not> (1 < length const_shape \<and> const_shape ! 1 = const_shape_size)
                      then Some (False, g1)
                    else if list_ex (\<lambda>v. is_type g1
                                [Convolution, GroupConvolution, ConvolutionBackpropData,
                                 GroupConvolutionBackpropData, MatMul] (fst v))
                              (g_input_values add_node)
                      then Some (False, g1)
                    else if list_ex (is_type g1 [Concat]) (get_users g1 (fq_pattern m))
                      then Some (False, g1)
                    else (case reshape_constant fq const_shape new_const g1 of
                            None \<Rightarrow> None
                          | Some (new_const', g2) \<Rightarrow> fuse ops m fq new_const' (g_next g) g2)))
         | _ \<Rightarrow> None)"


text \<open>
  An instance of the operations, with the widths of the element types, a test of a
  Constant for one repeated value, a Subtract that gives its first input's type and shape,
  and the folding of a Subtract of two Constants of which the second has one element.
\<close>

definition example_bitwidth :: "Type_t \<Rightarrow> nat" where
  "example_bitwidth t =
     (if t \<in> {t_undefined, t_dynamic} then 0
      else if t = t_u1 then 1
      else if t \<in> {t_i4, t_u4} then 4
      else if t \<in> {t_boolean, t_i8, t_u8} then 8
      else if t \<in> {t_bf16, t_f16, t_i16, t_u16} then 16
      else if t \<in> {t_f32, t_i32, t_u32} then 32
      else 64)"

definition example_single_value :: "GraphNode \<Rightarrow> rat option" where
  "example_single_value n =
     (case g_data n of [] \<Rightarrow> None | v # vs \<Rightarrow> if list_all (\<lambda>x. x = v) vs then Some v else None)"

definition example_fold :: "Graph \<Rightarrow> node_ptr \<Rightarrow> GraphNode option" where
  "example_fold g p =
     (case g_nodes g p of
        None \<Rightarrow> None
      | Some n \<Rightarrow>
          (case map (\<lambda>v. g_nodes g (fst v)) (g_input_values n) of
             [Some a, Some b] \<Rightarrow>
               if g_type n = Subtract \<and> g_type a = Constant \<and> g_type b = Constant \<and> length (g_data b) = 1
               then Some (new_constant (fst (hd (g_outputs a))) (the (get_shape a))
                            (map (\<lambda>x. x - hd (g_data b)) (g_data a)))
               else None
           | _ \<Rightarrow> None))"

definition example_operations :: Operations where
  "example_operations =
     \<lparr>bitwidth = example_bitwidth, get_single_value = example_single_value,
      infer_subtract = (\<lambda>a b. if fst a = fst b then Some a else None),
      get_constant_from_source = example_fold\<rparr>"

text \<open>
  A graph Parameter, Constant \<open>\<rightarrow>\<close> Add \<open>\<rightarrow>\<close> FakeQuantize \<open>\<rightarrow>\<close> Result, with the
  shape and the elements of the constant that is added left open.
\<close>

definition example_graph :: "nat list \<Rightarrow> rat list \<Rightarrow> Graph" where
  "example_graph const_shape const_data =
     \<lparr>g_nodes =
        [0 \<mapsto> (new_node (Other ''Parameter'') [] [(t_f32, static_shape [1, 3, 4, 4])])
                 \<lparr>g_friendly_name := ''data''\<rparr>,
         1 \<mapsto> new_constant t_f32 const_shape const_data,
         2 \<mapsto> new_node Add [(0, 0), (1, 0)] [(t_f32, static_shape [1, 3, 4, 4])],
         3 \<mapsto> new_constant t_f32 [1] [0],
         4 \<mapsto> new_constant t_f32 [1] [10],
         5 \<mapsto> new_constant t_f32 [1] [0],
         6 \<mapsto> new_constant t_f32 [1] [255],
         7 \<mapsto> (new_node FakeQuantize [(2, 0), (3, 0), (4, 0), (5, 0), (6, 0)]
                   [(t_f32, static_shape [1, 3, 4, 4])])\<lparr>g_levels := 256, g_friendly_name := ''fq''\<rparr>,
         8 \<mapsto> new_node (Other ''Result'') [(7, 0)] [(t_f32, static_shape [1, 3, 4, 4])]],
      g_next = 9\<rparr>"

definition example_match :: Match where
  "example_match = \<lparr>input_pattern = (0, 0), const_pattern = 1, add_pattern = 2, fq_pattern = 7\<rparr>"


section \<open>Functions of the same structure\<close>

text \<open>
  Two functions have the same structure along a renaming \<open>\<rho>\<close> of the addresses of the
  nodes when the nodes of their lists correspond one to one: the address of the second is
  the renamed address of the first, its inputs read the renamed producers, and all that
  is not a name is equal. Nothing is asked of the unique names as such. Of the names it is
  asked that the name of a node is auto-generated in both functions or in neither, and
  that names that are not auto-generated are equal; the same for the names of the
  functions. The renaming keeps apart the addresses that occur in the first function.
\<close>

definition rename_source :: "(node_ptr \<Rightarrow> node_ptr) \<Rightarrow> Input \<Rightarrow> Input" where
  "rename_source \<rho> i = i\<lparr>source_node := \<rho> (source_node i)\<rparr>"

definition same_name :: "Node \<Rightarrow> Node \<Rightarrow> bool" where
  "same_name n1 n2 =
     (if is_name_auto_generated n1 then is_name_auto_generated n2
      else \<not> is_name_auto_generated n2 \<and> get_friendly_name n2 = get_friendly_name n1)"

definition same_but_names :: "(node_ptr \<Rightarrow> node_ptr) \<Rightarrow> Node \<Rightarrow> Node \<Rightarrow> bool" where
  "same_but_names \<rho> n1 n2 =
     (address n2 = \<rho> (address n1) \<and> type_name n2 = type_name n1 \<and>
      type_version n2 = type_version n1 \<and> kind n2 = kind n1 \<and>
      inputs n2 = map (rename_source \<rho>) (inputs n1) \<and> outputs n2 = outputs n1 \<and>
      rt_info n2 = rt_info n1 \<and> opset_name n2 = opset_name n1 \<and> visited n2 = visited n1)"

definition same_node :: "(node_ptr \<Rightarrow> node_ptr) \<Rightarrow> Node \<Rightarrow> Node \<Rightarrow> bool" where
  "same_node \<rho> n1 n2 = (same_but_names \<rho> n1 n2 \<and> same_name n1 n2)"

definition addresses_of :: "Function \<Rightarrow> node_ptr list" where
  "addresses_of f =
     map address (function_nodes f) @
     concat (map (\<lambda>n. map source_node (inputs n)) (ordered_ops f))"

definition same_lists ::
  "(Node \<Rightarrow> Node \<Rightarrow> bool) \<Rightarrow> (node_ptr \<Rightarrow> node_ptr) \<Rightarrow> Function \<Rightarrow> Function \<Rightarrow> bool" where
  "same_lists r \<rho> f1 f2 =
     (inj_on \<rho> (set (addresses_of f1)) \<and>
      list_all2 r (ordered_ops f1) (ordered_ops f2) \<and>
      list_all2 r (parameters f1) (parameters f2) \<and>
      list_all2 r (sinks f1) (sinks f2) \<and>
      list_all2 r (results f1) (results f2))"

definition same_structure :: "(node_ptr \<Rightarrow> node_ptr) \<Rightarrow> Function \<Rightarrow> Function \<Rightarrow> bool" where
  "same_structure \<rho> f1 f2 =
     (same_lists (same_node \<rho>) \<rho> f1 f2 \<and>
      (if fn_is_name_auto_generated f1 then fn_is_name_auto_generated f2
       else \<not> fn_is_name_auto_generated f2 \<and> fn_get_friendly_name f2 = fn_get_friendly_name f1))"

text \<open>
  The weaker relation: the two functions are equal but for the addresses and the unique
  names. The friendly names that were set are the same, and the comparison of a friendly
  name with the unique name may come out differently in the two functions.
\<close>

definition same_but_ids :: "(node_ptr \<Rightarrow> node_ptr) \<Rightarrow> Function \<Rightarrow> Function \<Rightarrow> bool" where
  "same_but_ids \<rho> f1 f2 =
     (same_lists (\<lambda>n1 n2. same_but_names \<rho> n1 n2 \<and> m_friendly_name n2 = m_friendly_name n1) \<rho> f1 f2 \<and>
      fn_friendly_name f2 = fn_friendly_name f1)"

text \<open>
  A parameter, a Relu and a result, built at the addresses from \<open>base\<close> on, with the
  unique names that the instance counter gives from \<open>count\<close> on, and with a given
  friendly name of the Relu; the empty name stands for one that was never set.
\<close>

definition chain_function :: "node_ptr \<Rightarrow> nat \<Rightarrow> string \<Rightarrow> Function" where
  "chain_function base count friendly =
     (let x = example_node base ''Parameter'' Parameter ''x''
                (''Parameter_'' @ to_string (int count)) [];
          act = example_node (base + 1) ''Relu'' Operation friendly
                (''Relu_'' @ to_string (int count + 1)) [base];
          y = example_node (base + 2) ''Result'' Result ''y''
                (''Result_'' @ to_string (int count + 2)) [base + 1]
      in \<lparr>fn_friendly_name = [], fn_unique_name = ''Function_'' @ to_string (int count + 3),
          ordered_ops = [x, act, y], parameters = [x], sinks = [], results = [y],
          fn_rt_info_version = None\<rparr>)"


section \<open>Runtime information on ports, as the document shows it\<close>

text \<open>
  What a port is to carry of a runtime map, said of the document and not of the way it is
  written: nothing when no attribute of the map can be visited; else one \<open>rt_info\<close>
  element with an \<open>attribute\<close> element for each attribute that can be visited, in the
  order of the map, with the name and the version of the attribute's type and then the
  values that the attribute shows. This is compared with what \<open>append_runtime_info\<close>
  writes.
\<close>

definition carried_runtime_info :: "RTMap \<Rightarrow> xml_node list" where
  "carried_runtime_info rt =
     (let shown = filter (\<lambda>(key, item). variant_visit item \<noteq> None) rt
      in if shown = [] then []
         else [Element ''rt_info'' []
                 (map (\<lambda>(key, item).
                    Element ''attribute''
                      ([(''name'', Text (variant_type_name item)),
                        (''version'', Text (variant_version item))] @
                       map (\<lambda>(name, v). (name, Text (case v of Printable s \<Rightarrow> s | _ \<Rightarrow> [])))
                         (the (variant_visit item))) [])
                  shown)])"

text \<open>
  A function with a sink and with runtime information on its ports: a parameter, an Assign
  that reads it, a Relu that reads it, and a result. In the topological order the sink
  comes before the Relu. Of the two runtime attributes the second cannot be visited.
\<close>

definition fused_names :: Variant where
  "fused_names =
     \<lparr>variant_type_name = ''fused_names'', variant_version = ''0'',
      variant_string = Some ''conv,relu'',
      variant_visit = Some [(''value'', Printable ''conv,relu'')]\<rparr>"

definition opaque_attribute :: Variant where
  "opaque_attribute =
     \<lparr>variant_type_name = ''opaque'', variant_version = ''0'', variant_string = None,
      variant_visit = None\<rparr>"

definition tagged_input :: "node_ptr \<Rightarrow> Input" where
  "tagged_input producer =
     (example_input producer)\<lparr>input_rt_info := [(''fused_names_0'', fused_names), (''opaque_0'', opaque_attribute)]\<rparr>"

definition tagged_output :: Output where
  "tagged_output = example_output\<lparr>output_rt_info := [(''fused_names_0'', fused_names)]\<rparr>"

definition tagged_nodes :: "Node list" where
  "tagged_nodes =
     [example_node 10 ''Parameter'' Parameter ''x'' ''Parameter_0'' [],
      example_node 20 ''Assign'' Sink ''keep'' ''Assign_1'' [10],
      (example_node 30 ''Relu'' Operation ''act'' ''Relu_2'' [])
         \<lparr>inputs := [tagged_input 10], outputs := [tagged_output]\<rparr>,
      example_node 40 ''Result'' Result ''y'' ''Result_3'' [30]]"

definition tagged_function :: Function where
  "tagged_function =
     \<lparr>fn_friendly_name = ''net'', fn_unique_name = ''Function_4'', ordered_ops = tagged_nodes,
      parameters = [tagged_nodes ! 0], sinks = [tagged_nodes ! 1], results = [tagged_nodes ! 3],
      fn_rt_info_version = None\<rparr>"


section \<open>Properties of the Slice shape inference\<close>

subsection \<open>Facts about the double arithmetic\<close>

lemma of_int_lt_2p53: "(n::int) < 2 ^ 53 \<Longrightarrow> (of_int n :: rat) < 2 ^ 53"
  using of_int_less_iff [of n "2 ^ 53", where ?'a = rat] by simp
lemma of_int_ge_2p53: "\<not> (b::int) < 2 ^ 53 \<Longrightarrow> (2::rat) ^ 53 \<le> of_int b"
  using of_int_le_iff [of "2 ^ 53" b, where ?'a = rat] by simp
lemma of_int_le_2p53m1: "(a::int) < 2 ^ 53 \<Longrightarrow> (of_int a :: rat) \<le> 2 ^ 53 - 1"
  using of_int_le_iff [of a "2 ^ 53 - 1", where ?'a = rat] by simp
lemma of_int_ge_2p52: "(2::int) ^ 52 \<le> r \<Longrightarrow> (2::rat) ^ 52 \<le> of_int r"
  using of_int_le_iff [of "2 ^ 52" r, where ?'a = rat] by simp
lemma below_one_2p53: "q \<le> (2 ^ 53 - 1) / 2 ^ 53 \<Longrightarrow> (0::rat) < q \<Longrightarrow> q + q / 2 ^ 53 < 1"
  by simp

lemma bitlen_powi_bounds:
  assumes "0 < (x::int)"
  shows "power_int (2::rat) (bitlen x - 1) \<le> of_int x" and "of_int x < power_int (2::rat) (bitlen x)"
proof -
  from bitlen_bounds [OF assms] have lo: "2 ^ nat (bitlen x - 1) \<le> x" and hi: "x < 2 ^ nat (bitlen x)"
    by auto
  have b1: "1 \<le> bitlen x" using assms bitlen_eq_zero_iff [of x] bitlen_nonneg [of x] by linarith
  have "power_int (2::rat) (bitlen x - 1) = of_int (2 ^ nat (bitlen x - 1))"
    using b1 by (simp add: power_int_def)
  also have "\<dots> \<le> of_int x" using lo by (simp only: of_int_le_iff)
  finally show "power_int (2::rat) (bitlen x - 1) \<le> of_int x" .
  have "(of_int x :: rat) < of_int (2 ^ nat (bitlen x))" using hi by (simp only: of_int_less_iff)
  also have "\<dots> = power_int (2::rat) (bitlen x)" using b1 by (simp add: power_int_def)
  finally show "of_int x < power_int (2::rat) (bitlen x)" .
qed

lemma binade_bounds:
  assumes "0 < q"
  shows "power_int 2 (binade q) \<le> q" and "q < power_int 2 (binade q + 1)"
proof -
  obtain n d where nd: "quotient_of q = (n, d)" by (cases "quotient_of q")
  then have d: "0 < d" and q: "q = of_int n / of_int d"
    by (auto simp: quotient_of_denom_pos quotient_of_div)
  have n: "0 < n" using assms d q by (simp add: zero_less_divide_iff)
  define k where "k = bitlen n - bitlen d"
  have dr: "(0::rat) < of_int d" using d by simp
  note bn = bitlen_powi_bounds [OF n] and bd = bitlen_powi_bounds [OF d]
  have split1: "power_int (2::rat) (bitlen n) = power_int 2 (k + 1) * power_int 2 (bitlen d - 1)"
    by (simp add: k_def power_int_add [symmetric])
  have split2: "power_int (2::rat) (bitlen n - 1) = power_int 2 (k - 1) * power_int 2 (bitlen d)"
    by (simp add: k_def power_int_add [symmetric])
  have up: "of_int n < power_int (2::rat) (k + 1) * of_int d"
  proof -
    have "of_int n < power_int (2::rat) (k + 1) * power_int 2 (bitlen d - 1)"
      using bn(2) split1 by simp
    also have "\<dots> \<le> power_int 2 (k + 1) * of_int d"
      using bd(1) by (simp add: mult_left_mono)
    finally show ?thesis .
  qed
  have low: "power_int (2::rat) (k - 1) * of_int d \<le> of_int n"
  proof -
    have "power_int (2::rat) (k - 1) * of_int d \<le> power_int 2 (k - 1) * power_int 2 (bitlen d)"
      using bd(2) by (simp add: mult_left_mono)
    also have "\<dots> \<le> of_int n" using bn(1) split2 by simp
    finally show ?thesis .
  qed
  show "power_int 2 (binade q) \<le> q"
  proof (cases "power_int 2 k * of_int d \<le> (of_int n :: rat)")
    case True
    then have "binade q = k" by (simp add: binade_def nd k_def)
    then show ?thesis using True dr by (simp add: q pos_le_divide_eq)
  next
    case False
    then have "binade q = k - 1" by (simp add: binade_def nd k_def)
    then show ?thesis using low dr by (simp add: q pos_le_divide_eq)
  qed
  show "q < power_int 2 (binade q + 1)"
  proof (cases "power_int 2 k * of_int d \<le> (of_int n :: rat)")
    case True
    then have "binade q = k" by (simp add: binade_def nd k_def)
    then show ?thesis using up dr by (simp add: q pos_divide_less_eq)
  next
    case False
    then have "binade q = k - 1" by (simp add: binade_def nd k_def)
    then show ?thesis using False dr by (simp add: q pos_divide_less_eq)
  qed
qed

lemma round_half_even_err: "\<bar>of_int (round_half_even m) - m\<bar> \<le> 1 / 2"
proof -
  have "of_int \<lfloor>m\<rfloor> \<le> m" "m < of_int \<lfloor>m\<rfloor> + 1" by linarith+
  then show ?thesis by (auto simp: round_half_even_def Let_def)
qed

lemma round_half_even_of_int: "round_half_even (of_int k) = k"
  by (simp add: round_half_even_def)

lemma round_half_even_ge_floor: "\<lfloor>m\<rfloor> \<le> round_half_even m"
  by (simp add: round_half_even_def Let_def)

lemma to_double_err:
  assumes "0 < q"
  shows "\<bar>to_double q - q\<bar> \<le> power_int 2 (binade q - 53)"
proof -
  define u :: rat where "u = power_int 2 (binade q - 52)"
  have u: "0 < u" by (simp add: u_def zero_less_power_int)
  have td: "to_double q = of_int (round_half_even (q / u)) * u"
    using assms by (simp add: to_double_def u_def Let_def)
  have "to_double q - q = (of_int (round_half_even (q / u)) - q / u) * u"
    using u by (simp add: td algebra_simps)
  then have "\<bar>to_double q - q\<bar> = \<bar>of_int (round_half_even (q / u)) - q / u\<bar> * u"
    using u by (simp add: abs_mult)
  also have "\<dots> \<le> (1 / 2) * u"
    using round_half_even_err [of "q / u"] u by (simp add: mult_right_mono)
  also have "\<dots> = power_int 2 (binade q - 53)"
    by (simp add: u_def power_int_diff)
  finally show ?thesis .
qed

lemma to_double_rel_err:
  assumes "0 < q"
  shows "\<bar>to_double q - q\<bar> \<le> q / 2 ^ 53"
proof -
  have "power_int (2::rat) (binade q - 53) = power_int 2 (binade q) / 2 ^ 53"
    by (simp add: power_int_diff)
  also have "\<dots> \<le> q / 2 ^ 53"
    using binade_bounds(1) [OF assms] by (simp add: divide_right_mono)
  finally show ?thesis using to_double_err [OF assms] by linarith
qed

lemma to_double_ge_binade:
  assumes "0 < q"
  shows "power_int 2 (binade q) \<le> to_double q"
proof -
  define u :: rat where "u = power_int 2 (binade q - 52)"
  have u: "0 < u" by (simp add: u_def zero_less_power_int)
  have td: "to_double q = of_int (round_half_even (q / u)) * u"
    using assms by (simp add: to_double_def u_def Let_def)
  have pu: "power_int (2::rat) (binade q) = 2 ^ 52 * u"
    by (simp add: u_def power_int_diff)
  have "(2::rat) ^ 52 \<le> q / u"
    using binade_bounds(1) [OF assms] u by (simp add: pu pos_le_divide_eq)
  then have "(2::int) ^ 52 \<le> \<lfloor>q / u\<rfloor>" by (simp add: le_floor_iff)
  then have "(2::int) ^ 52 \<le> round_half_even (q / u)"
    using round_half_even_ge_floor [of "q / u"] by linarith
  then have "(2::rat) ^ 52 \<le> of_int (round_half_even (q / u))"
    by (rule of_int_ge_2p52)
  then show ?thesis using u by (simp add: td pu mult_right_mono)
qed

lemma to_double_of_int_exact:
  assumes "0 \<le> n" "n < 2 ^ 53"
  shows "to_double (of_int n) = of_int n"
proof (cases "n = 0")
  case True
  then show ?thesis by (simp add: to_double_def)
next
  case False
  then have pos: "(0::rat) < of_int n" using assms by simp
  define e where "e = binade (of_int n)"
  have "power_int (2::rat) e \<le> of_int n" using binade_bounds(1) [OF pos] by (simp add: e_def)
  also have "\<dots> < 2 ^ 53" using assms(2) by (rule of_int_lt_2p53)
  finally have "power_int (2::rat) e < power_int 2 53" by simp
  then have e: "e \<le> 52"
    using power_int_increasing [of 53 e "2::rat"] by (cases "e \<le> 52") auto
  define m where "m = nat (52 - e)"
  have u: "power_int (2::rat) (e - 52) = 1 / 2 ^ m"
    using e by (simp add: power_int_def m_def power_one_over)
  have "to_double (of_int n) = of_int (round_half_even (of_int n / (1 / 2 ^ m))) * (1 / 2 ^ m)"
    using pos by (simp add: to_double_def Let_def e_def [symmetric] u)
  also have "of_int n / (1 / (2::rat) ^ m) = of_int (n * 2 ^ m)" by simp
  also have "round_half_even (of_int (n * 2 ^ m)) = n * 2 ^ m" by (rule round_half_even_of_int)
  also have "of_int (n * 2 ^ m) * (1 / (2::rat) ^ m) = of_int n" by simp
  finally show ?thesis .
qed

lemma double_ceil_div:
  assumes a: "0 \<le> a" "a < 2 ^ 53" and b: "0 < b"
  shows "\<lceil>to_double (to_double (of_int a) / to_double (of_int b))\<rceil> = - ((- a) div b)"
proof (cases "a = 0")
  case True
  then show ?thesis by (simp add: to_double_def)
next
  case False
  then have apos: "0 < a" using a by simp
  have ta: "to_double (of_int a) = of_int a" using a by (rule to_double_of_int_exact)
  have br: "(0::rat) < of_int b" using b by simp
  show ?thesis
  proof (cases "b < 2 ^ 53")
    case True
    have tb: "to_double (of_int b) = of_int b" using b True by (simp add: to_double_of_int_exact)
    define q :: rat where "q = of_int a / of_int b"
    have qpos: "0 < q" using apos b by (simp add: q_def)
    show ?thesis
    proof (cases "b dvd a")
      case True
      then obtain k where k: "a = b * k" by (auto simp: dvd_def)
      have k0: "0 < k" using k apos b by (simp add: zero_less_mult_iff)
      have "k \<le> b * k" using mult_right_mono [of 1 b k] b k0 by linarith
      moreover have "b * k < 2 ^ 53" using a(2) unfolding k .
      ultimately have "k < 2 ^ 53" by linarith
      then have kb: "0 \<le> k" "k < 2 ^ 53" using k0 by simp_all
      have "q = of_int k" using b by (simp add: q_def k)
      then have "to_double q = of_int k" using kb by (simp add: to_double_of_int_exact)
      moreover have "- a = b * (- k)" by (simp add: k)
      then have "(- a) div b = - k" using b by (metis nonzero_mult_div_cancel_left less_irrefl)
      then have "- ((- a) div b) = k" by simp
      ultimately show ?thesis by (simp add: ta tb q_def [symmetric])
    next
      case False
      define k where "k = a div b"
      define r where "r = a mod b"
      have r0: "r \<noteq> 0" using False by (simp add: r_def mod_eq_0_iff_dvd)
      have "0 \<le> r" "r < b" using b by (simp_all add: r_def)
      then have r: "1 \<le> r" "r \<le> b - 1" using r0 by auto
      have ak: "a = b * k + r" by (simp add: k_def r_def)
      have qk: "q = of_int k + of_int r / of_int b"
        using b by (simp add: q_def ak add_divide_distrib)
      have lo: "of_int k + 1 / of_int b \<le> q"
        using r(1) br by (simp add: qk divide_right_mono)
      have "of_int r / (of_int b :: rat) \<le> of_int (b - 1) / of_int b"
        using r(2) br by (intro divide_right_mono) (simp_all only: of_int_le_iff less_imp_le)
      also have "\<dots> = 1 - 1 / of_int b" using br by (simp add: diff_divide_distrib)
      finally have hi: "q \<le> of_int k + 1 - 1 / of_int b" by (simp add: qk)
      have "(of_int a :: rat) < 2 ^ 53" using a(2) by (rule of_int_lt_2p53)
      then have "of_int a / 2 ^ 53 < (1::rat)" by simp
      then have "of_int a / 2 ^ 53 / of_int b < 1 / (of_int b :: rat)"
        using br by (rule divide_strict_right_mono)
      moreover have "q / 2 ^ 53 = of_int a / 2 ^ 53 / of_int b" by (simp add: q_def)
      ultimately have "q / 2 ^ 53 < 1 / of_int b" by (simp only:)
      with to_double_rel_err [OF qpos] have err: "\<bar>to_double q - q\<bar> < 1 / of_int b" by linarith
      have "of_int k < to_double q" "to_double q < of_int k + 1" using err lo hi by linarith+
      then have "\<lceil>to_double q\<rceil> = k + 1" by (intro ceiling_unique) simp_all
      moreover have "- ((- a) div b) = k + 1"
        using b r0 by (simp add: zdiv_zminus1_eq_if k_def r_def)
      ultimately show ?thesis by (simp add: ta tb q_def [symmetric])
    qed
  next
    case False
    define tb where "tb = to_double (of_int b)"
    have "(2::rat) ^ 53 \<le> of_int b" using False by (rule of_int_ge_2p53)
    also have "\<dots> < power_int 2 (binade (of_int b) + 1)" using binade_bounds(2) [OF br] .
    finally have "power_int (2::rat) 53 < power_int 2 (binade (of_int b) + 1)" by simp
    then have "53 \<le> binade (of_int b)"
      using power_int_increasing [of "binade (of_int b) + 1" 53 "2::rat"]
      by (cases "53 \<le> binade (of_int b)") auto
    then have "power_int (2::rat) 53 \<le> power_int 2 (binade (of_int b))"
      by (intro power_int_increasing) auto
    also have "\<dots> \<le> tb" unfolding tb_def using to_double_ge_binade [OF br] .
    finally have tb: "(2::rat) ^ 53 \<le> tb" by simp
    have "(0::rat) < 2 ^ 53" by simp
    then have tbpos: "0 < tb" using tb by (rule less_le_trans)
    define q :: rat where "q = of_int a / tb"
    have qpos: "0 < q" using apos tbpos by (simp add: q_def)
    have "(of_int a :: rat) \<le> 2 ^ 53 - 1"
      using a(2) by (rule of_int_le_2p53m1)
    then have "q \<le> (2 ^ 53 - 1) / tb" using tbpos by (simp add: q_def divide_right_mono)
    also have "\<dots> \<le> (2 ^ 53 - 1) / 2 ^ 53" using tb by (intro divide_left_mono) auto
    finally have qle: "q \<le> (2 ^ 53 - 1) / 2 ^ 53" .
    have "to_double q \<le> q + q / 2 ^ 53" using to_double_rel_err [OF qpos] by linarith
    also have "\<dots> < 1" using qle qpos by (rule below_one_2p53)
    finally have lt1: "to_double q < 1" .
    have "0 < power_int (2::rat) (binade q)" by (simp add: zero_less_power_int)
    then have gt0: "0 < to_double q" using to_double_ge_binade [OF qpos] by linarith
    have "\<lceil>to_double q\<rceil> = 1" using lt1 gt0 by (intro ceiling_unique) simp_all
    moreover have "a < b" using a(2) False by linarith
    then have "- ((- a) div b) = 1" using apos b by (simp add: zdiv_zminus1_eq_if)
    ultimately show ?thesis by (simp add: ta tb_def [symmetric] q_def [symmetric])
  qed
qed

lemma to_double_pos: "0 < q \<Longrightarrow> 0 < to_double q"
  using to_double_ge_binade [of q] zero_less_power_int [of "2::rat" "binade q"] by linarith

lemma neg_div_pos_le0: "0 \<le> (a::int) \<Longrightarrow> 0 < b \<Longrightarrow> (- a) div b \<le> 0"
  using pos_imp_zdiv_neg_iff [of b "- a"] by (cases "a = 0") auto

lemma neg_div_pos_ge: "0 \<le> (a::int) \<Longrightarrow> 0 < b \<Longrightarrow> - a \<le> (- a) div b"
  using zdiv_mono2_neg [of "- a" 1 b] by (cases "a = 0") auto

lemma ceil_div_double_exact:
  assumes "0 \<le> a" "a < 2 ^ 53" "step \<noteq> 0"
  shows "ceil_div_double a step = Some (- ((- a) div \<bar>step\<bar>))"
proof -
  have b: "0 < \<bar>step\<bar>" using assms(3) by simp
  then have "(0::rat) < of_int \<bar>step\<bar>" by (simp only: of_int_0_less_iff)
  then have "0 < to_double (of_int \<bar>step\<bar>)" by (rule to_double_pos)
  then have nz: "to_double (of_int \<bar>step\<bar>) \<noteq> 0" by simp
  define c where "c = - ((- a) div \<bar>step\<bar>)"
  have c: "\<lceil>to_double (to_double (of_int a) / to_double (of_int \<bar>step\<bar>))\<rceil> = c"
    unfolding c_def using assms(1,2) b by (rule double_ceil_div)
  have c0: "0 \<le> c" unfolding c_def using neg_div_pos_le0 [OF assms(1) b] by simp
  have c1: "c \<le> a" unfolding c_def using neg_div_pos_ge [OF assms(1) b] by simp
  have "double_to_int64 (of_int c) = Some c"
    using c0 c1 assms(2) by (simp add: double_to_int64_def INT64_MAX_def)
  then show ?thesis using nz c by (simp add: ceil_div_double_def Let_def c_def)
qed

lemma get_sliced_dim_size_exact:
  assumes "0 \<le> dim_size" "dim_size < 2 ^ 53" "step \<noteq> 0"
  shows "get_sliced_dim_size start stop step dim_size = Some (spec_sliced_length start stop step dim_size)"
proof -
  define start2 where "start2 = max 0 (min (if start < 0 then dim_size + start else start) dim_size)"
  define stop2 where "stop2 = max (- 1) (min (if stop < 0 then dim_size + stop else stop) dim_size)"
  define n where "n = (if step < 0 then max 0 (min (dim_size - 1) start2 - stop2)
             else max 0 (min dim_size stop2 - start2))"
  have b: "0 \<le> start2" "- 1 \<le> stop2" by (simp_all add: start2_def stop2_def)
  have "0 \<le> n" "n \<le> dim_size" using assms(1) b by (auto simp: n_def)
  then have "0 \<le> n" "n < 2 ^ 53" using assms(2) by simp_all
  then have "ceil_div_double n step = Some (- ((- n) div \<bar>step\<bar>))"
    using assms(3) by (rule ceil_div_double_exact)
  moreover have "get_sliced_dim_size start stop step dim_size = ceil_div_double n step"
    by (simp only: get_sliced_dim_size_def Let_def n_def start2_def stop2_def)
  moreover have "spec_sliced_length start stop step dim_size = \<lceil>(of_int n :: rat) / of_int \<bar>step\<bar>\<rceil>"
    by (simp only: spec_sliced_length_def Let_def n_def start2_def stop2_def
        add.commute [of start dim_size] add.commute [of stop dim_size])
  then have "spec_sliced_length start stop step dim_size = - ((- n) div \<bar>step\<bar>)"
    by (simp only: ceiling_divide_eq_div)
  ultimately show ?thesis by simp
qed

lemma slice_loop_length:
  "slice_loop items data out = Inr out' \<Longrightarrow> length out' = length out"
proof (induction items arbitrary: out)
  case Nil
  then show ?case by simp
next
  case (Cons x xs)
  obtain s e st a where x: "x = (s, e, st, a)" by (cases x) auto
  from Cons.prems show ?case
    by (auto simp: x Let_def split: if_splits sum.splits dest!: Cons.IH)
qed

lemma slice_loop_in_range:
  "slice_loop items data out = Inr out' \<Longrightarrow> (s, e, st, a) \<in> set items \<Longrightarrow>
   0 \<le> norm_axis (length data) a \<and> norm_axis (length data) a < int (length data)"
proof (induction items arbitrary: out)
  case Nil
  then show ?case by simp
next
  case (Cons x xs)
  obtain s' e' st' a' where x: "x = (s', e', st', a')" by (cases x) auto
  from Cons.prems show ?case
    by (auto simp: x Let_def split: if_splits sum.splits dest: Cons.IH)
qed

lemma slice_loop_frame:
  "slice_loop items data out = Inr out' \<Longrightarrow>
   \<forall>(s, e, st, a) \<in> set items. nat (norm_axis (length data) a) \<noteq> j \<Longrightarrow> out' ! j = out ! j"
proof (induction items arbitrary: out)
  case Nil
  then show ?case by simp
next
  case (Cons x xs)
  obtain s e st a where x: "x = (s, e, st, a)" by (cases x) auto
  from Cons.prems(1) obtain d where
    rest: "slice_loop xs data (out[nat (norm_axis (length data) a) := d]) = Inr out'"
    by (auto simp: x Let_def split: if_splits sum.splits)
  have "out' ! j = (out[nat (norm_axis (length data) a) := d]) ! j"
    using Cons.prems(2) by (intro Cons.IH [OF rest]) auto
  also have "\<dots> = out ! j" using Cons.prems(2) by (simp add: x)
  finally show ?case .
qed

lemma slice_loop_result:
  "slice_loop items data out = Inr out' \<Longrightarrow> length out = length data \<Longrightarrow>
   distinct (map (\<lambda>(s, e, st, a). norm_axis (length data) a) items) \<Longrightarrow>
   (s, e, st, a) \<in> set items \<Longrightarrow>
   slice_axis s e st (data ! nat (norm_axis (length data) a)) =
     Inr (out' ! nat (norm_axis (length data) a))"
proof (induction items arbitrary: out)
  case Nil
  then show ?case by simp
next
  case (Cons x xs)
  obtain s' e' st' a' where x: "x = (s', e', st', a')" by (cases x) auto
  define n' where "n' = norm_axis (length data) a'"
  from Cons.prems(1) obtain d where
    n': "0 \<le> n'" "n' < int (length data)" and
    d: "slice_axis s' e' st' (data ! nat n') = Inr d" and
    rest: "slice_loop xs data (out[nat n' := d]) = Inr out'"
    by (auto simp: x Let_def n'_def split: if_splits sum.splits)
  show ?case
  proof (cases "(s, e, st, a) \<in> set xs")
    case True
    then show ?thesis using Cons.IH [OF rest] Cons.prems(2,3) by simp
  next
    case False
    then have eq: "s = s'" "e = e'" "st = st'" "a = a'" using Cons.prems(4) by (auto simp: x)
    have "\<forall>(s, e, st, a) \<in> set xs. nat (norm_axis (length data) a) \<noteq> nat n'"
    proof (clarify)
      fix s2 e2 st2 a2 assume m: "(s2, e2, st2, a2) \<in> set xs"
        and c: "nat (norm_axis (length data) a2) = nat n'"
      from slice_loop_in_range [OF rest m] have "0 \<le> norm_axis (length data) a2" by simp
      with c n' have "norm_axis (length data) a2 = n'" by simp
      moreover have "n' \<notin> (\<lambda>(s, e, st, a). norm_axis (length data) a) ` set xs"
        using Cons.prems(3) by (simp add: x n'_def)
      ultimately show False using m by force
    qed
    from slice_loop_frame [OF rest this]
    have "out' ! nat n' = (out[nat n' := d]) ! nat n'" .
    also have "\<dots> = d" using n' Cons.prems(2) by simp
    finally show ?thesis using d by (simp add: eq n'_def)
  qed
qed

lemma slice_loop_succeeds:
  "\<forall>(s, e, st, a) \<in> set items.
     0 \<le> norm_axis (length data) a \<and> norm_axis (length data) a < int (length data) \<and>
     (\<exists>d. slice_axis s e st (data ! nat (norm_axis (length data) a)) = Inr d) \<Longrightarrow>
   \<exists>out'. slice_loop items data out = Inr out'"
proof (induction items arbitrary: out)
  case Nil
  then show ?case by simp
next
  case (Cons x xs)
  obtain s e st a where x: "x = (s, e, st, a)" by (cases x) auto
  from Cons.prems obtain d where
    "slice_axis s e st (data ! nat (norm_axis (length data) a)) = Inr d"
    "0 \<le> norm_axis (length data) a" "norm_axis (length data) a < int (length data)"
    by (auto simp: x)
  moreover have "\<exists>out'. slice_loop xs data (out[nat (norm_axis (length data) a) := d]) = Inr out'"
    using Cons.prems by (intro Cons.IH) auto
  ultimately show ?case by (simp add: x Let_def)
qed

lemma slice_axis_static:
  assumes "is_static d" "0 \<le> min_val d" "min_val d < 2 ^ 53" "step \<noteq> 0"
  shows "slice_axis start stop step d = Inr (Dimension_of (spec_sliced_length start stop step (min_val d)))"
  using assms by (simp add: slice_axis_def get_min_length_def get_sliced_dim_size_exact)

lemma zip4_nth:
  assumes "length stops = length starts" "length steps = length starts" "length axes = length starts"
    and "i < length axes"
  shows "(starts ! i, stops ! i, steps ! i, axes ! i) \<in> set (zip starts (zip stops (zip steps axes)))"
  using assms by (auto simp: set_zip intro!: exI [of _ i])

lemma zip4_axes:
  assumes "length stops = length starts" "length steps = length starts" "length axes = length starts"
  shows "map (\<lambda>(s, e, st, a). f a) (zip starts (zip stops (zip steps axes))) = map f axes"
  using assms by (intro nth_equalityI) auto

lemma zip4_mem:
  "(s, e, st, a) \<in> set (zip starts (zip stops (zip steps axes))) \<Longrightarrow> st \<in> set steps \<and> a \<in> set axes"
proof -
  assume "(s, e, st, a) \<in> set (zip starts (zip stops (zip steps axes)))"
  then have "(e, st, a) \<in> set (zip stops (zip steps axes))" by (rule set_zip_rightD)
  then have "(st, a) \<in> set (zip steps axes)" by (rule set_zip_rightD)
  then show ?thesis by (auto dest: set_zip_leftD set_zip_rightD)
qed

text \<open>
  C1 (amended). For a Slice node whose data shape is static, with every dimension below
  2^53, whose steps are non-zero and whose axes are in range and, once normalised, pairwise
  different, the output shape exists, every sliced dimension is the static dimension given
  by the closed form of the specification, and every axis that is not listed keeps its
  input dimension.
\<close>

theorem calculate_output_shape_static:
  assumes sizes: "length stops = length starts" "length steps = length starts"
      "length axes = length starts"
    and static: "\<forall>d \<in> set dims. is_static d \<and> 0 \<le> min_val d \<and> min_val d < 2 ^ 53"
    and steps: "\<forall>s \<in> set steps. s \<noteq> 0"
    and range: "\<forall>a \<in> set axes. 0 \<le> norm_axis (length dims) a \<and>
                  norm_axis (length dims) a < int (length dims)"
    and uniq: "distinct (map (norm_axis (length dims)) axes)"
  shows "\<exists>out. calculate_output_shape starts stops steps axes (Some dims) = Inr (Some out) \<and>
           length out = length dims \<and>
           (\<forall>i < length axes.
              out ! nat (norm_axis (length dims) (axes ! i)) =
                Dimension_of (spec_sliced_length (starts ! i) (stops ! i) (steps ! i)
                  (min_val (dims ! nat (norm_axis (length dims) (axes ! i)))))) \<and>
           (\<forall>j < length dims. int j \<notin> norm_axis (length dims) ` set axes \<longrightarrow> out ! j = dims ! j)"
proof -
  let ?items = "zip starts (zip stops (zip steps axes))"
  let ?n = "norm_axis (length dims)"
  have each: "\<forall>(s, e, st, a) \<in> set ?items.
      0 \<le> ?n a \<and> ?n a < int (length dims) \<and> (\<exists>d. slice_axis s e st (dims ! nat (?n a)) = Inr d)"
  proof (clarify)
    fix s e st a assume m: "(s, e, st, a) \<in> set ?items"
    then have st: "st \<noteq> 0" and a: "0 \<le> ?n a" "?n a < int (length dims)"
      using zip4_mem [OF m] steps range by auto
    then have "dims ! nat (?n a) \<in> set dims" by simp
    with static st have "\<exists>d. slice_axis s e st (dims ! nat (?n a)) = Inr d"
      by (auto simp: slice_axis_static)
    with a show "0 \<le> ?n a \<and> ?n a < int (length dims) \<and> (\<exists>d. slice_axis s e st (dims ! nat (?n a)) = Inr d)"
      by simp
  qed
  from slice_loop_succeeds [OF each] obtain out where out: "slice_loop ?items dims dims = Inr out"
    by blast
  have dist: "distinct axes" using uniq by (simp add: distinct_map)
  have res: "calculate_output_shape starts stops steps axes (Some dims) = Inr (Some out)"
    using sizes dist out by (simp add: calculate_output_shape_def)
  have len: "length out = length dims" using slice_loop_length [OF out] .
  have uniq': "distinct (map (\<lambda>(s, e, st, a). ?n a) ?items)"
    using uniq by (simp add: zip4_axes [OF sizes])
  have sliced: "out ! nat (?n (axes ! i)) =
      Dimension_of (spec_sliced_length (starts ! i) (stops ! i) (steps ! i) (min_val (dims ! nat (?n (axes ! i)))))"
    if i: "i < length axes" for i
  proof -
    have m: "(starts ! i, stops ! i, steps ! i, axes ! i) \<in> set ?items"
      using sizes i by (rule zip4_nth)
    have st: "steps ! i \<noteq> 0" and a: "0 \<le> ?n (axes ! i)" "?n (axes ! i) < int (length dims)"
      using zip4_mem [OF m] steps range by auto
    then have "dims ! nat (?n (axes ! i)) \<in> set dims" by simp
    with static st have "slice_axis (starts ! i) (stops ! i) (steps ! i) (dims ! nat (?n (axes ! i))) =
        Inr (Dimension_of (spec_sliced_length (starts ! i) (stops ! i) (steps ! i)
              (min_val (dims ! nat (?n (axes ! i))))))"
      by (auto simp: slice_axis_static)
    with slice_loop_result [OF out refl uniq' m] show ?thesis by simp
  qed
  have frame: "out ! j = dims ! j" if "j < length dims" "int j \<notin> ?n ` set axes" for j
  proof (rule slice_loop_frame [OF out], clarify)
    fix s e st a assume m: "(s, e, st, a) \<in> set ?items" and c: "j = nat (?n a)"
    from zip4_mem [OF m] range have "a \<in> set axes" "0 \<le> ?n a" by auto
    with c have "int j = ?n a" by simp
    with that(2) \<open>a \<in> set axes\<close> show False by blast
  qed
  show ?thesis using res len sliced frame by blast
qed

theorem calculate_output_shape_static_witness:
  "\<exists>out. calculate_output_shape [1] [5] [2] [- 1] (Some [Dimension_of 4, Dimension_of 10]) = Inr (Some out) \<and>
     length out = 2 \<and> out ! 1 = Dimension_of 2 \<and> out ! 0 = Dimension_of 4"
  using calculate_output_shape_static [of "[5]" "[1]" "[2]" "[- 1]" "[Dimension_of 4, Dimension_of 10]"]
  by (auto simp: is_static_def has_upper_bound_def Dimension_of_def INT64_MAX_def norm_axis_def
      spec_sliced_length_def)

theorem calculate_output_shape_static_counterexample:
  "calculate_output_shape [0] [2 ^ 53 + 1] [1] [0] (Some [Dimension_of (2 ^ 53 + 1)]) =
     Inr (Some [Dimension_of (2 ^ 53)]) \<and>
   Dimension_of (spec_sliced_length 0 (2 ^ 53 + 1) 1 (2 ^ 53 + 1)) \<noteq> Dimension_of (2 ^ 53)"
  by code_simp

lemma calculate_output_shape_axis:
  assumes ok: "calculate_output_shape starts stops steps axes (Some dims) = Inr (Some out)"
    and uniq: "distinct (map (norm_axis (length dims)) axes)"
    and i: "i < length axes"
  shows "slice_axis (starts ! i) (stops ! i) (steps ! i) (dims ! nat (norm_axis (length dims) (axes ! i))) =
           Inr (out ! nat (norm_axis (length dims) (axes ! i)))"
proof -
  let ?items = "zip starts (zip stops (zip steps axes))"
  from ok have sizes: "length stops = length starts" "length steps = length starts"
      "length axes = length starts"
    and out: "slice_loop ?items dims dims = Inr out"
    by (auto simp: calculate_output_shape_def Let_def split: if_splits sum.splits)
  have uniq': "distinct (map (\<lambda>(s, e, st, a). norm_axis (length dims) a) ?items)"
    using uniq by (simp add: zip4_axes [OF sizes])
  have m: "(starts ! i, stops ! i, steps ! i, axes ! i) \<in> set ?items"
    using sizes i by (rule zip4_nth)
  from slice_loop_result [OF out refl uniq' m] show ?thesis .
qed

lemma slice_axis_unbounded:
  assumes "slice_axis start stop step d = Inr r" "\<not> has_upper_bound d"
  shows "(step > 0 \<and> start < 0 \<and> stop > 0 \<longrightarrow>
            r = (if stop < INT32_MAX then Dimension_range 0 stop else Dimension_of (- 1))) \<and>
         (step < 0 \<and> start > 0 \<and> stop < 0 \<longrightarrow>
            r = (if start < INT32_MAX then Dimension_range 0 (start + 1) else Dimension_of (- 1))) \<and>
         (step < 0 \<and> start < 0 \<and> stop > 0 \<longrightarrow> r = Dimension_of (- 1)) \<and>
         (step > 0 \<and> start > 0 \<and> stop < 0 \<longrightarrow> r = Dimension_of (- 1))"
  using assms
  by (auto simp: slice_axis_def is_static_def Dimension_range_def Dimension_of_def INT32_MAX_def
      split: if_splits option.splits)

text \<open>
  C4 (amended). For a Slice node with constant inputs on which the shape inference
  succeeds, whose axes denote pairwise different dimensions once negative values are
  normalised by the rank, and a sliced axis whose dimension has
  no upper bound: a negative start with a positive stop under a positive step gives the
  dimension from 0 to stop when stop is below 2^31 - 1, and the fully dynamic dimension
  from there on; a positive start with a negative stop under a negative step gives the
  dimension from 0 to start + 1 when start is below 2^31 - 1, and the fully dynamic
  dimension from there on; the two remaining mixed-sign combinations give the fully
  dynamic dimension.
\<close>

theorem calculate_output_shape_unbounded_axis:
  assumes ok: "calculate_output_shape starts stops steps axes (Some dims) = Inr (Some out)"
    and uniq: "distinct (map (norm_axis (length dims)) axes)"
    and i: "i < length axes"
    and k: "k = nat (norm_axis (length dims) (axes ! i))"
    and unbounded: "\<not> has_upper_bound (dims ! k)"
  shows "(steps ! i > 0 \<and> starts ! i < 0 \<and> stops ! i > 0 \<longrightarrow>
            out ! k = (if stops ! i < INT32_MAX then Dimension_range 0 (stops ! i)
                       else Dimension_of (- 1))) \<and>
         (steps ! i < 0 \<and> starts ! i > 0 \<and> stops ! i < 0 \<longrightarrow>
            out ! k = (if starts ! i < INT32_MAX then Dimension_range 0 (starts ! i + 1)
                       else Dimension_of (- 1))) \<and>
         (steps ! i < 0 \<and> starts ! i < 0 \<and> stops ! i > 0 \<longrightarrow> out ! k = Dimension_of (- 1)) \<and>
         (steps ! i > 0 \<and> starts ! i > 0 \<and> stops ! i < 0 \<longrightarrow> out ! k = Dimension_of (- 1))"
  using slice_axis_unbounded [OF calculate_output_shape_axis [OF ok uniq i, folded k] unbounded] .

lemma unbounded_example:
  "calculate_output_shape [- 2] [7] [1] [0] (Some [Dimension_of (- 1)]) = Inr (Some [Dimension_range 0 7])"
  by (simp add: calculate_output_shape_def slice_axis_def norm_axis_def Dimension_of_def
      get_min_length_def get_sliced_dim_size_exact is_static_def has_upper_bound_def INT32_MAX_def)

theorem calculate_output_shape_unbounded_axis_witness:
  "calculate_output_shape [- 2] [7] [1] [0] (Some [Dimension_of (- 1)]) = Inr (Some [Dimension_range 0 7]) \<and>
   [Dimension_range 0 7] ! 0 = (if (7::int) < INT32_MAX then Dimension_range 0 7 else Dimension_of (- 1))"
proof -
  have u: "\<not> has_upper_bound ([Dimension_of (- 1)] ! nat (norm_axis (length [Dimension_of (- 1)]) ([0] ! 0)))"
    by (simp add: norm_axis_def has_upper_bound_def Dimension_of_def)
  from calculate_output_shape_unbounded_axis [OF unbounded_example _ _ refl u]
  show ?thesis by (simp add: unbounded_example norm_axis_def INT32_MAX_def)
qed

theorem calculate_output_shape_unbounded_axis_counterexample:
  "calculate_output_shape [- 1] [2 ^ 31 - 1] [1] [0] (Some [Dimension_of (- 1)]) =
     Inr (Some [Dimension_of (- 1)]) \<and>
   Dimension_of (- 1) \<noteq> Dimension_range 0 (2 ^ 31 - 1)"
  by (simp add: calculate_output_shape_def slice_axis_def norm_axis_def Dimension_of_def
      get_min_length_def get_sliced_dim_size_exact is_static_def has_upper_bound_def
      Dimension_range_def INT32_MAX_def INT64_MAX_def)

text \<open>
  The condition on the axes is needed: the check of the code compares the axes as they are
  given, so that 0 and -1 pass for a shape of rank 1, and the second slice of the one
  dimension overwrites the first.
\<close>

lemma calculate_output_shape_repeated_axis:
  "calculate_output_shape [- 2, 3] [7, - 5] [1, 1] [0, - 1] (Some [Dimension_of (- 1)]) =
     Inr (Some [Dimension_of (- 1)]) \<and>
   Dimension_of (- 1) \<noteq> Dimension_range 0 7"
  by (simp add: calculate_output_shape_def slice_axis_def norm_axis_def Dimension_of_def
      get_min_length_def get_sliced_dim_size_exact is_static_def has_upper_bound_def
      Dimension_range_def INT32_MAX_def INT64_MAX_def)

text \<open>
  C5. The claim asks that a sliced axis whose input dimension is a bounded interval gets a
  dimension whose minimum does not exceed its maximum. For start -5, stop 3, step 1 and the
  input interval from 3 to 10 the code returns the interval with minimum 3 and maximum 0:
  the sliced size at the lower bound is 3, at the upper bound it is 0.
\<close>

theorem calculate_output_shape_bounded_interval_inverted:
  "calculate_output_shape [- 5] [3] [1] [0] (Some [Dimension_range 3 10]) =
     Inr (Some [\<lparr>min_val = 3, max_val = 0\<rparr>]) \<and>
   get_sliced_dim_size (- 5) 3 1 3 = Some 3 \<and> get_sliced_dim_size (- 5) 3 1 10 = Some 0"
  by (simp add: calculate_output_shape_def slice_axis_def norm_axis_def Dimension_range_def
      get_min_length_def get_max_val_def get_sliced_dim_size_exact is_static_def has_upper_bound_def
      INT64_MAX_def spec_sliced_length_def)

section \<open>Properties of the constant payload writer\<close>

lemma take_drop_append_keep:
  "n + k \<le> length xs \<Longrightarrow> take k (drop n (xs @ ys)) = take k (drop n xs)"
  by simp

lemma write_cases [consumes 2, case_names fresh reuse differ]:
  assumes "ConstantWriter_write p w = Some (off, w')" "m_enable_compression w"
  obtains
    (fresh) "m_hash_to_file_positions w (hash_combine p) = None"
      "off = int (length (m_binary_output w))"
      "w' = w\<lparr>m_binary_output := m_binary_output w @ p,
               m_hash_to_file_positions := (m_hash_to_file_positions w)(hash_combine p \<mapsto> (int (length (m_binary_output w)), p))\<rparr>"
  | (reuse) pos stored where "m_hash_to_file_positions w (hash_combine p) = Some (pos, stored)"
      "length p \<le> length stored" "take (length p) stored = p" "off = pos" "w' = w"
  | (differ) pos stored where "m_hash_to_file_positions w (hash_combine p) = Some (pos, stored)"
      "length p \<le> length stored" "take (length p) stored \<noteq> p"
      "off = int (length (m_binary_output w))"
      "w' = w\<lparr>m_binary_output := m_binary_output w @ p\<rparr>"
proof (cases "m_hash_to_file_positions w (hash_combine p)")
  case None
  with assms have "off = int (length (m_binary_output w))"
      "w' = w\<lparr>m_binary_output := m_binary_output w @ p,
               m_hash_to_file_positions := (m_hash_to_file_positions w)(hash_combine p \<mapsto> (int (length (m_binary_output w)), p))\<rparr>"
    by (simp_all add: ConstantWriter_write_def Let_def eq_commute)
  with None show ?thesis by (rule fresh)
next
  case (Some e)
  obtain pos stored where e: "e = (pos, stored)" by (cases e)
  note look = Some [unfolded e]
  from assms look have m: "memcmp_eq p stored (length p) \<noteq> None"
    by (auto simp: ConstantWriter_write_def Let_def split: option.splits)
  then have len: "length p \<le> length stored" by (simp add: memcmp_eq_def split: if_splits)
  then have mc: "memcmp_eq p stored (length p) = Some (take (length p) stored = p)"
    by (auto simp: memcmp_eq_def)
  show ?thesis
  proof (cases "take (length p) stored = p")
    case True
    with assms look mc have "off = pos" "w' = w"
      by (simp_all add: ConstantWriter_write_def Let_def eq_commute)
    with look len True show ?thesis by (rule reuse)
  next
    case False
    with assms look mc have "off = int (length (m_binary_output w))"
      "w' = w\<lparr>m_binary_output := m_binary_output w @ p\<rparr>"
      by (simp_all add: ConstantWriter_write_def Let_def eq_commute)
    with look len False show ?thesis by (rule differ)
  qed
qed

lemma write_keeps_mode:
  assumes "ConstantWriter_write p w = Some (off, w')" "m_enable_compression w"
  shows "m_enable_compression w'"
  using assms assms(2) by (cases rule: write_cases) auto

lemma write_appends:
  assumes "ConstantWriter_write p w = Some (off, w')" "m_enable_compression w"
  shows "\<exists>ext. m_binary_output w' = m_binary_output w @ ext"
  using assms by (cases rule: write_cases) auto

lemma write_inv:
  assumes "ConstantWriter_write p w = Some (off, w')" "m_enable_compression w" "writer_inv w"
  shows "writer_inv w'"
  using assms(1,2)
proof (cases rule: write_cases)
  case fresh
  show ?thesis unfolding writer_inv_def
  proof (intro allI impI)
    fix h pos q assume e: "m_hash_to_file_positions w' h = Some (pos, q)"
    show "hash_combine q = h \<and> 0 \<le> pos \<and> nat pos + length q \<le> length (m_binary_output w') \<and>
        take (length q) (drop (nat pos) (m_binary_output w')) = q"
    proof (cases "h = hash_combine p")
      case True
      with e fresh have "pos = off" "q = p" by auto
      then show ?thesis using fresh True by simp
    next
      case False
      with e fresh have "m_hash_to_file_positions w h = Some (pos, q)" by auto
      with assms(3) have "hash_combine q = h \<and> 0 \<le> pos \<and> nat pos + length q \<le> length (m_binary_output w) \<and>
        take (length q) (drop (nat pos) (m_binary_output w)) = q"
        unfolding writer_inv_def by blast
      then show ?thesis using fresh by simp
    qed
  qed
next
  case (reuse pos stored)
  then show ?thesis using assms(3) by simp
next
  case (differ pos stored)
  show ?thesis unfolding writer_inv_def
  proof (intro allI impI)
    fix h pos q assume e: "m_hash_to_file_positions w' h = Some (pos, q)"
    with differ have "m_hash_to_file_positions w h = Some (pos, q)" by auto
    with assms(3) have "hash_combine q = h \<and> 0 \<le> pos \<and> nat pos + length q \<le> length (m_binary_output w) \<and>
        take (length q) (drop (nat pos) (m_binary_output w)) = q"
      unfolding writer_inv_def by blast
    then show "hash_combine q = h \<and> 0 \<le> pos \<and> nat pos + length q \<le> length (m_binary_output w') \<and>
        take (length q) (drop (nat pos) (m_binary_output w')) = q"
      using differ by simp
  qed
qed

lemma write_addresses_payload:
  assumes "ConstantWriter_write p w = Some (off, w')" "m_enable_compression w" "writer_inv w"
  shows "0 \<le> off \<and> nat off + length p \<le> length (m_binary_output w') \<and>
         take (length p) (drop (nat off) (m_binary_output w')) = p"
  using assms(1,2)
proof (cases rule: write_cases)
  case fresh
  then show ?thesis by simp
next
  case (reuse pos stored)
  with assms(3) have s: "0 \<le> pos" "nat pos + length stored \<le> length (m_binary_output w)"
      "take (length stored) (drop (nat pos) (m_binary_output w)) = stored"
    unfolding writer_inv_def by blast+
  have "take (length p) (drop (nat pos) (m_binary_output w)) =
        take (length p) (take (length stored) (drop (nat pos) (m_binary_output w)))"
    using reuse(2) by (simp add: min_absorb1)
  also have "\<dots> = p" using s(3) reuse(3) by simp
  finally show ?thesis using s reuse by simp
next
  case (differ pos stored)
  then show ?thesis by simp
qed

lemma write_entries:
  assumes "ConstantWriter_write p w = Some (off, w')" "m_enable_compression w"
  shows "m_hash_to_file_positions w' h =
     (if h = hash_combine p \<and> m_hash_to_file_positions w h = None then Some (off, p)
      else m_hash_to_file_positions w h)"
  using assms by (cases rule: write_cases) auto

lemma write_recorded:
  assumes "ConstantWriter_write p w = Some (off, w')" "m_enable_compression w"
    "m_hash_to_file_positions w (hash_combine p) = Some (pos, p)"
  shows "off = pos"
  using assms(1,2) assms(3) by (cases rule: write_cases) auto

lemma write_defined:
  assumes "m_enable_compression w"
    "\<forall>pos q. m_hash_to_file_positions w (hash_combine p) = Some (pos, q) \<longrightarrow> length p \<le> length q"
  shows "\<exists>off w'. ConstantWriter_write p w = Some (off, w')"
  using assms
  by (auto simp: ConstantWriter_write_def Let_def memcmp_eq_def split: option.splits bool.splits)

lemma write_all_Cons:
  assumes "write_all (p # ps) w = Some (offs, w')"
  obtains off w1 offs' where "ConstantWriter_write p w = Some (off, w1)"
    "write_all ps w1 = Some (offs', w')" "offs = off # offs'"
  using assms by (auto split: option.splits)

lemma write_all_basic:
  assumes "write_all ps w = Some (offs, w')" "m_enable_compression w" "writer_inv w"
  shows "length offs = length ps \<and> m_enable_compression w' \<and> writer_inv w' \<and>
         (\<exists>ext. m_binary_output w' = m_binary_output w @ ext)"
  using assms
proof (induction ps arbitrary: w offs)
  case Nil
  then show ?case by simp
next
  case (Cons p ps)
  from Cons.prems(1) obtain off w1 offs' where
    s: "ConstantWriter_write p w = Some (off, w1)" and r: "write_all ps w1 = Some (offs', w')"
    and o: "offs = off # offs'"
    by (rule write_all_Cons)
  note m1 = write_keeps_mode [OF s Cons.prems(2)] and i1 = write_inv [OF s Cons.prems(2,3)]
  from Cons.IH [OF r m1 i1] write_appends [OF s Cons.prems(2)] show ?case
    by (auto simp: o)
qed

lemma write_all_addresses:
  assumes "write_all ps w = Some (offs, w')" "m_enable_compression w" "writer_inv w" "i < length ps"
  shows "0 \<le> offs ! i \<and> nat (offs ! i) + length (ps ! i) \<le> length (m_binary_output w') \<and>
         take (length (ps ! i)) (drop (nat (offs ! i)) (m_binary_output w')) = ps ! i"
  using assms
proof (induction ps arbitrary: w offs i)
  case Nil
  then show ?case by simp
next
  case (Cons p ps)
  from Cons.prems(1) obtain off w1 offs' where
    s: "ConstantWriter_write p w = Some (off, w1)" and r: "write_all ps w1 = Some (offs', w')"
    and o: "offs = off # offs'"
    by (rule write_all_Cons)
  note m1 = write_keeps_mode [OF s Cons.prems(2)] and i1 = write_inv [OF s Cons.prems(2,3)]
  show ?case
  proof (cases i)
    case 0
    from write_all_basic [OF r m1 i1] obtain ext where
      ext: "m_binary_output w' = m_binary_output w1 @ ext" by blast
    from write_addresses_payload [OF s Cons.prems(2,3)] show ?thesis
      by (simp add: 0 o ext)
  next
    case (Suc i')
    with Cons.prems(4) have "i' < length ps" by simp
    from Cons.IH [OF r m1 i1 this] show ?thesis by (simp add: Suc o)
  qed
qed

lemma write_all_recorded:
  assumes "write_all ps w = Some (offs, w')" "m_enable_compression w" "i < length ps"
    "m_hash_to_file_positions w (hash_combine (ps ! i)) = Some (pos, ps ! i)"
  shows "offs ! i = pos"
  using assms
proof (induction ps arbitrary: w offs i)
  case Nil
  then show ?case by simp
next
  case (Cons p ps)
  from Cons.prems(1) obtain off w1 offs' where
    s: "ConstantWriter_write p w = Some (off, w1)" and r: "write_all ps w1 = Some (offs', w')"
    and o: "offs = off # offs'"
    by (rule write_all_Cons)
  note m1 = write_keeps_mode [OF s Cons.prems(2)]
  show ?case
  proof (cases i)
    case 0
    with Cons.prems(4) write_recorded [OF s Cons.prems(2)] show ?thesis by (simp add: o)
  next
    case (Suc i')
    with Cons.prems(3) have i': "i' < length ps" by simp
    have "m_hash_to_file_positions w1 (hash_combine (ps ! i')) = Some (pos, ps ! i')"
      using Cons.prems(4) by (simp add: write_entries [OF s Cons.prems(2)] Suc)
    from Cons.IH [OF r m1 i' this] show ?thesis by (simp add: Suc o)
  qed
qed

lemma write_all_first:
  assumes "write_all ps w = Some (offs, w')" "m_enable_compression w" "i < length ps" "j < i"
    "ps ! j = ps ! i" "m_hash_to_file_positions w (hash_combine (ps ! j)) = None"
    "\<forall>k<j. hash_combine (ps ! k) \<noteq> hash_combine (ps ! j)"
  shows "offs ! i = offs ! j"
  using assms
proof (induction ps arbitrary: w offs i j)
  case Nil
  then show ?case by simp
next
  case (Cons p ps)
  from Cons.prems(1) obtain off w1 offs' where
    s: "ConstantWriter_write p w = Some (off, w1)" and r: "write_all ps w1 = Some (offs', w')"
    and o: "offs = off # offs'"
    by (rule write_all_Cons)
  note m1 = write_keeps_mode [OF s Cons.prems(2)]
  from Cons.prems(4) obtain i' where i: "i = Suc i'" by (cases i) auto
  with Cons.prems(3) have i': "i' < length ps" by simp
  show ?case
  proof (cases j)
    case 0
    with Cons.prems(5) have pq: "ps ! i' = p" by (simp add: i)
    have "m_hash_to_file_positions w1 (hash_combine (ps ! i')) = Some (off, ps ! i')"
      using Cons.prems(6) by (simp add: write_entries [OF s Cons.prems(2)] 0 pq)
    with r m1 i' have "offs' ! i' = off" by (rule write_all_recorded)
    then show ?thesis by (simp add: o i 0)
  next
    case (Suc j')
    from Cons.prems(7) [rule_format, of 0] have ne: "hash_combine p \<noteq> hash_combine (ps ! j')"
      by (simp add: Suc)
    have e1: "m_hash_to_file_positions w1 (hash_combine (ps ! j')) = None"
      using Cons.prems(6) ne by (simp add: write_entries [OF s Cons.prems(2)] Suc)
    have f: "\<forall>k<j'. hash_combine (ps ! k) \<noteq> hash_combine (ps ! j')"
    proof (intro allI impI)
      fix k assume "k < j'"
      with Cons.prems(7) [rule_format, of "Suc k"] show "hash_combine (ps ! k) \<noteq> hash_combine (ps ! j')"
        by (simp add: Suc)
    qed
    have "j' < i'" "ps ! j' = ps ! i'" using Cons.prems(4,5) by (simp_all add: i Suc)
    with r m1 i' have "offs' ! i' = offs' ! j'" using e1 f by (rule Cons.IH)
    then show ?thesis by (simp add: o i Suc)
  qed
qed

lemma write_all_defined:
  assumes "m_enable_compression w"
    "\<forall>i<length ps. (\<forall>pos q. m_hash_to_file_positions w (hash_combine (ps ! i)) = Some (pos, q) \<longrightarrow>
         length (ps ! i) \<le> length q) \<and>
       (\<forall>k<i. hash_combine (ps ! k) = hash_combine (ps ! i) \<longrightarrow> length (ps ! i) \<le> length (ps ! k))"
  shows "\<exists>offs w'. write_all ps w = Some (offs, w')"
  using assms
proof (induction ps arbitrary: w)
  case Nil
  then show ?case by simp
next
  case (Cons p ps)
  have "\<forall>pos q. m_hash_to_file_positions w (hash_combine p) = Some (pos, q) \<longrightarrow> length p \<le> length q"
    using Cons.prems(2) by (auto dest: spec [of _ 0])
  with Cons.prems(1) obtain off w1 where s: "ConstantWriter_write p w = Some (off, w1)"
    using write_defined by blast
  note m1 = write_keeps_mode [OF s Cons.prems(1)]
  have "\<forall>i<length ps. (\<forall>pos q. m_hash_to_file_positions w1 (hash_combine (ps ! i)) = Some (pos, q) \<longrightarrow>
         length (ps ! i) \<le> length q) \<and>
       (\<forall>k<i. hash_combine (ps ! k) = hash_combine (ps ! i) \<longrightarrow> length (ps ! i) \<le> length (ps ! k))"
  proof (intro allI impI conjI)
    fix i pos q assume i: "i < length ps"
      and e: "m_hash_to_file_positions w1 (hash_combine (ps ! i)) = Some (pos, q)"
    from i have si: "Suc i < length (p # ps)" by simp
    note c = Cons.prems(2) [rule_format, OF si]
    from c [THEN conjunct1] have
      a: "\<forall>pos q. m_hash_to_file_positions w (hash_combine (ps ! i)) = Some (pos, q) \<longrightarrow>
             length (ps ! i) \<le> length q"
      by simp
    from c [THEN conjunct2, rule_format, of 0] have
      b: "hash_combine p = hash_combine (ps ! i) \<longrightarrow> length (ps ! i) \<le> length p"
      by simp
    from e show "length (ps ! i) \<le> length q"
      using a b by (auto simp: write_entries [OF s Cons.prems(1)] split: if_splits)
  next
    fix i k assume i: "i < length ps" and k: "k < i"
      and h: "hash_combine (ps ! k) = hash_combine (ps ! i)"
    from i have si: "Suc i < length (p # ps)" by simp
    from Cons.prems(2) [rule_format, OF si, THEN conjunct2, rule_format, of "Suc k"] k h
    show "length (ps ! i) \<le> length (ps ! k)" by simp
  qed
  from Cons.IH [OF m1 this] s show ?case by auto
qed

lemma writer_inv_new: "writer_inv (ConstantWriter_new pos True)"
  by (simp add: writer_inv_def ConstantWriter_new_def)

text \<open>
  C2 (amended). For every sequence of payload writes with compression enabled in which no
  payload is longer than an earlier payload with the same weak hash: every write returns
  an offset; the bytes of the payload stream at a returned offset are the bytes of the
  payload written, so an offset is only reused after the byte comparison succeeded; a
  payload byte-identical to the first payload written with its weak hash gets that
  payload's offset; and a payload whose bytes differ from an earlier payload of the same
  length, as with a collision of the weak hash, gets a different offset.
\<close>

theorem constant_writer_dedup:
  assumes len: "\<forall>i<length ps. \<forall>k<i. hash_combine (ps ! k) = hash_combine (ps ! i) \<longrightarrow>
                  length (ps ! i) \<le> length (ps ! k)"
  shows "\<exists>offs w. write_all ps (ConstantWriter_new pos True) = Some (offs, w) \<and>
           length offs = length ps \<and>
           (\<forall>i<length ps. 0 \<le> offs ! i \<and>
              take (length (ps ! i)) (drop (nat (offs ! i)) (m_binary_output w)) = ps ! i) \<and>
           (\<forall>i<length ps. \<forall>j<i.
              ps ! j = ps ! i \<and> (\<forall>k<j. hash_combine (ps ! k) \<noteq> hash_combine (ps ! j)) \<longrightarrow>
              offs ! i = offs ! j) \<and>
           (\<forall>i<length ps. \<forall>j<i.
              length (ps ! j) = length (ps ! i) \<and> ps ! j \<noteq> ps ! i \<longrightarrow> offs ! i \<noteq> offs ! j)"
proof -
  let ?w0 = "ConstantWriter_new pos True"
  have c: "m_enable_compression ?w0" and e: "m_hash_to_file_positions ?w0 = Map.empty"
    by (simp_all add: ConstantWriter_new_def)
  have "\<exists>offs w'. write_all ps ?w0 = Some (offs, w')"
    using c len by (intro write_all_defined) (simp_all add: e)
  then obtain offs w where run: "write_all ps ?w0 = Some (offs, w)" by blast
  note inv = writer_inv_new [of pos]
  have l: "length offs = length ps" using write_all_basic [OF run c inv] by simp
  have a: "0 \<le> offs ! i \<and> take (length (ps ! i)) (drop (nat (offs ! i)) (m_binary_output w)) = ps ! i"
    if "i < length ps" for i
    using write_all_addresses [OF run c inv that] by simp
  have d: "offs ! i = offs ! j"
    if "i < length ps" "j < i" "ps ! j = ps ! i" "\<forall>k<j. hash_combine (ps ! k) \<noteq> hash_combine (ps ! j)"
    for i j
    using write_all_first [OF run c that(1,2,3) _ that(4)] by (simp add: e)
  have n: "offs ! i \<noteq> offs ! j"
    if i: "i < length ps" and j: "j < i" and eq: "length (ps ! j) = length (ps ! i)"
      and ne: "ps ! j \<noteq> ps ! i" for i j
  proof
    assume same: "offs ! i = offs ! j"
    from j i have "j < length ps" by simp
    from a [OF this] a [OF i] same eq have "ps ! j = ps ! i" by simp
    with ne show False by simp
  qed
  show ?thesis using run l a d n by blast
qed

lemma length_bytes_of_int64: "length (bytes_of_int64 x) = 8"
  by (simp add: bytes_of_int64_def)

theorem constant_writer_dedup_witness:
  "\<exists>offs w. write_all [bytes_of_int64 2 @ bytes_of_int64 2, bytes_of_int64 2 @ bytes_of_int64 2,
                         bytes_of_int64 0 @ bytes_of_int64 128] (ConstantWriter_new 0 True) = Some (offs, w) \<and>
     offs ! 1 = offs ! 0 \<and> offs ! 2 \<noteq> offs ! 0"
proof -
  let ?ps = "[bytes_of_int64 2 @ bytes_of_int64 2, bytes_of_int64 2 @ bytes_of_int64 2,
              bytes_of_int64 0 @ bytes_of_int64 128]"
  have len: "\<forall>i<length ?ps. \<forall>k<i. hash_combine (?ps ! k) = hash_combine (?ps ! i) \<longrightarrow>
                  length (?ps ! i) \<le> length (?ps ! k)"
    by (simp add: nth_Cons' length_bytes_of_int64)
  have ne: "bytes_of_int64 2 @ bytes_of_int64 2 \<noteq> bytes_of_int64 0 @ bytes_of_int64 128"
    by code_simp
  from constant_writer_dedup [OF len, of 0] obtain offs w where
    run: "write_all ?ps (ConstantWriter_new 0 True) = Some (offs, w)"
    and d: "\<forall>i<length ?ps. \<forall>j<i.
              ?ps ! j = ?ps ! i \<and> (\<forall>k<j. hash_combine (?ps ! k) \<noteq> hash_combine (?ps ! j)) \<longrightarrow>
              offs ! i = offs ! j"
    and n: "\<forall>i<length ?ps. \<forall>j<i.
              length (?ps ! j) = length (?ps ! i) \<and> ?ps ! j \<noteq> ?ps ! i \<longrightarrow> offs ! i \<noteq> offs ! j"
    by blast
  from d [rule_format, of 1 0] have "offs ! 1 = offs ! 0" by simp
  moreover from n [rule_format, of 2 0] ne have "offs ! 2 \<noteq> offs ! 0"
    by (simp add: length_bytes_of_int64)
  ultimately show ?thesis using run by blast
qed

theorem constant_writer_dedup_counterexample:
  "hash_combine (bytes_of_int64 2 @ bytes_of_int64 2) = hash_combine (bytes_of_int64 0 @ bytes_of_int64 128) \<and>
   map_option fst (write_all [bytes_of_int64 2 @ bytes_of_int64 2, bytes_of_int64 0 @ bytes_of_int64 128,
                              bytes_of_int64 0 @ bytes_of_int64 128] (ConstantWriter_new 0 True)) =
     Some [0, 16, 32]"
  by code_simp

section \<open>Properties of the IR serializer\<close>

subsection \<open>Decimal printing is injective, and the search for a free name ends\<close>

lemma nat_of_digits_snoc: "nat_of_digits (s @ [c]) = 10 * nat_of_digits s + (of_char c - 48)"
  by (simp add: nat_of_digits_def)

lemma digit_value: "d < 10 \<Longrightarrow> of_char (digit_char d) - 48 = (d::nat)"
  by (simp add: digit_char_def of_char_of)

lemma nat_of_digits_string_of_nat: "nat_of_digits (string_of_nat n) = n"
proof (induction n rule: string_of_nat.induct)
  case (1 n)
  show ?case
  proof (cases "n < 10")
    case True
    then show ?thesis
      by (simp add: string_of_nat.simps [of n] nat_of_digits_def digit_value)
  next
    case False
    with 1 have "nat_of_digits (string_of_nat (n div 10)) = n div 10" by simp
    then show ?thesis
      using False by (simp add: string_of_nat.simps [of n] nat_of_digits_snoc digit_value)
  qed
qed

lemma inj_string_of_nat: "inj string_of_nat"
  by (rule inj_on_inverseI [of _ nat_of_digits]) (rule nat_of_digits_string_of_nat)

lemma inj_suffixed_name: "inj (\<lambda>k. base_name @ to_string (int k))"
  by (rule injI) (simp add: to_string_def inj_eq [OF inj_string_of_nat])

lemma finite_taken_suffixes: "finite {k. base_name @ to_string (int k) \<in> set unique_names}"
proof -
  have "{k. base_name @ to_string (int k) \<in> set unique_names} =
        (\<lambda>k. base_name @ to_string (int k)) -` set unique_names" by auto
  then show ?thesis using inj_suffixed_name by (simp add: finite_vimageI)
qed

termination generate_unique_name
proof (relation "measure (\<lambda>(unique_names, base_name, suffix).
         card {k. suffix \<le> k \<and> base_name @ to_string (int k) \<in> set unique_names})")
  show "wf (measure (\<lambda>(unique_names, base_name, suffix).
         card {k. suffix \<le> k \<and> base_name @ to_string (int k) \<in> set unique_names}))"
    by simp
next
  fix unique_names :: "string list" and base_name :: string and suffix :: nat
  assume taken: "\<not> base_name @ to_string (int suffix) \<notin> set unique_names"
  let ?S = "\<lambda>s. {k. s \<le> k \<and> base_name @ to_string (int k) \<in> set unique_names}"
  have fin: "finite (?S suffix)"
    by (rule finite_subset [OF _ finite_taken_suffixes [of base_name unique_names]]) auto
  have "?S (suffix + 1) \<subseteq> ?S suffix" by auto
  moreover have "suffix \<in> ?S suffix" using taken by simp
  moreover have "suffix \<notin> ?S (suffix + 1)" by simp
  ultimately have "?S (suffix + 1) \<subset> ?S suffix" by blast
  then have "card (?S (suffix + 1)) < card (?S suffix)" using fin by (rule psubset_card_mono [rotated])
  then show "((unique_names, base_name, suffix + 1), (unique_names, base_name, suffix))
      \<in> measure (\<lambda>(unique_names, base_name, suffix).
         card {k. suffix \<le> k \<and> base_name @ to_string (int k) \<in> set unique_names})"
    by simp
qed

declare generate_unique_name.simps [simp del]

subsection \<open>Ports, layers and edges\<close>

lemma find_append_cases:
  "find P (xs @ ys) = (case find P xs of None \<Rightarrow> find P ys | Some x \<Rightarrow> Some x)"
  by (induction xs) auto

lemma has_id_port [simp]:
  "has_id i (Element t ((''id'', Number k) # as) cs) = (i = k)"
  by (auto simp: has_id_def attribute_def)

lemma port_rt_info_port [simp]:
  "port_rt_info (Element t as (dim_elements shape @ rt)) = filter (\<lambda>c. xml_tag c = ''rt_info'') rt"
  by (simp add: port_rt_info_def dim_elements_def filter_map o_def)

lemma runtime_info_tags:
  "append_runtime_info attributes = Inr rt \<Longrightarrow> filter (\<lambda>c. xml_tag c = ''rt_info'') rt = rt"
  by (auto simp: append_runtime_info_def split: sum.splits if_splits)

lemma versioned_runtime_info_tags:
  "versioned_runtime_info version attributes = Inr rt \<Longrightarrow>
   filter (\<lambda>c. xml_tag c = ''rt_info'') rt = rt"
  by (auto simp: versioned_runtime_info_def runtime_info_tags split: if_splits)

lemma input_ports_next:
  "input_ports version lstm index port_id ins = Inr (ports, next_id) \<Longrightarrow>
   next_id = port_id + length ins"
proof (induction ins arbitrary: index port_id ports)
  case Nil
  then show ?case by simp
next
  case (Cons i rest)
  from Cons.prems obtain ports' where
    "input_ports version lstm (index + 1) (port_id + 1) rest = Inr (ports', next_id)"
    by (auto split: if_splits sum.splits prod.splits)
  from Cons.IH [OF this] show ?case by simp
qed

lemma input_ports_ids:
  "input_ports version lstm index port_id ins = Inr (ports, next_id) \<Longrightarrow> p \<in> set ports \<Longrightarrow>
   \<exists>j < length ins. has_id (int (port_id + j)) p \<and> \<not> (index + j = 6 \<and> lstm)"
proof (induction ins arbitrary: index port_id ports)
  case Nil
  then show ?case by simp
next
  case (Cons i rest)
  show ?case
  proof (cases "index = 6 \<and> lstm")
    case True
    with Cons.prems have "input_ports version lstm (index + 1) (port_id + 1) rest = Inr (ports, next_id)"
      by simp
    from Cons.IH [OF this Cons.prems(2)] obtain j where
      "j < length rest" "has_id (int (port_id + 1 + j)) p" "\<not> (index + 1 + j = 6 \<and> lstm)" by blast
    then show ?thesis by (intro exI [of _ "Suc j"]) simp
  next
    case False
    with Cons.prems(1) obtain rt ports' where
      r: "input_ports version lstm (index + 1) (port_id + 1) rest = Inr (ports', next_id)"
      and p: "ports = Element ''port''
                      [(''id'', Number (int port_id)),
                       (''precision'', Text (get_precision_name (input_element_type i)))]
                      (dim_elements (input_partial_shape i) @ rt) # ports'"
      by (auto split: sum.splits prod.splits)
    show ?thesis
    proof (cases "p \<in> set ports'")
      case True
      from Cons.IH [OF r True] obtain j where
        "j < length rest" "has_id (int (port_id + 1 + j)) p" "\<not> (index + 1 + j = 6 \<and> lstm)" by blast
      then show ?thesis by (intro exI [of _ "Suc j"]) simp
    next
      case F: False
      with Cons.prems(2) p have "has_id (int port_id) p" by auto
      with False show ?thesis by (intro exI [of _ 0]) auto
    qed
  qed
qed

lemma input_ports_find:
  "input_ports version lstm index port_id ins = Inr (ports, next_id) \<Longrightarrow> j < length ins \<Longrightarrow>
   (if index + j = 6 \<and> lstm then find (has_id (int (port_id + j))) ports = None
    else \<exists>p. find (has_id (int (port_id + j))) ports = Some p \<and> xml_tag p = ''port'' \<and>
           versioned_runtime_info version (input_rt_info (ins ! j)) = Inr (port_rt_info p))"
proof (induction ins arbitrary: index port_id ports j)
  case Nil
  then show ?case by simp
next
  case (Cons i rest)
  have none_below: "find (has_id (int port_id)) ps = None"
    if "input_ports version lstm (index + 1) (port_id + 1) rest = Inr (ps, next_id)" for ps
  proof -
    have "\<not> has_id (int port_id) p" if "p \<in> set ps" for p
    proof -
      from input_ports_ids [OF \<open>input_ports version lstm (index + 1) (port_id + 1) rest = Inr (ps, next_id)\<close> that]
      obtain j where "has_id (int (port_id + 1 + j)) p" by blast
      then show ?thesis by (auto simp: has_id_def)
    qed
    then show ?thesis by (auto simp: find_None_iff)
  qed
  show ?case
  proof (cases "index = 6 \<and> lstm")
    case True
    with Cons.prems have r: "input_ports version lstm (index + 1) (port_id + 1) rest = Inr (ports, next_id)"
      by simp
    show ?thesis
    proof (cases j)
      case 0
      with True none_below [OF r] show ?thesis by simp
    next
      case (Suc j')
      with Cons.prems(2) have "j' < length rest" by simp
      from Cons.IH [OF r this] show ?thesis by (auto simp: Suc split: if_splits)
    qed
  next
    case False
    with Cons.prems(1) obtain rt ports' where
      r: "input_ports version lstm (index + 1) (port_id + 1) rest = Inr (ports', next_id)"
      and rt: "versioned_runtime_info version (input_rt_info i) = Inr rt"
      and p: "ports = Element ''port''
                      [(''id'', Number (int port_id)),
                       (''precision'', Text (get_precision_name (input_element_type i)))]
                      (dim_elements (input_partial_shape i) @ rt) # ports'"
      by (auto split: sum.splits prod.splits)
    show ?thesis
    proof (cases j)
      case 0
      with False rt show ?thesis by (simp add: p versioned_runtime_info_tags)
    next
      case (Suc j')
      with Cons.prems(2) have "j' < length rest" by simp
      from Cons.IH [OF r this] show ?thesis by (auto simp: Suc p split: if_splits)
    qed
  qed
qed

lemma output_ports_length:
  "output_ports version port_id outs = Inr ports \<Longrightarrow> length ports = length outs"
  by (induction outs arbitrary: port_id ports) (auto split: sum.splits)

lemma output_ports_nth:
  "output_ports version port_id outs = Inr ports \<Longrightarrow> j < length outs \<Longrightarrow>
   has_id (int (port_id + j)) (ports ! j) \<and> xml_tag (ports ! j) = ''port'' \<and>
   versioned_runtime_info version (output_rt_info (outs ! j)) = Inr (port_rt_info (ports ! j))"
proof (induction outs arbitrary: port_id ports j)
  case Nil
  then show ?case by simp
next
  case (Cons ou rest)
  from Cons.prems(1) obtain rt ports' where
    r: "output_ports version (port_id + 1) rest = Inr ports'"
    and rt: "versioned_runtime_info version (output_rt_info ou) = Inr rt"
    and p: "ports = Element ''port''
                      ([(''id'', Number (int port_id)),
                        (''precision'', Text (get_precision_name (output_element_type ou)))] @
                       (if joined_names (tensor_names ou) \<noteq> []
                        then [(''names'', Text (joined_names (tensor_names ou)))] else []))
                      (dim_elements (output_partial_shape ou) @ rt) # ports'"
    by (auto split: sum.splits)
  show ?case
  proof (cases j)
    case 0
    with rt show ?thesis by (simp add: p versioned_runtime_info_tags)
  next
    case (Suc j')
    with Cons.prems(2) have "j' < length rest" by simp
    from Cons.IH [OF r this] show ?thesis by (simp add: Suc p)
  qed
qed

lemma output_ports_find:
  assumes "output_ports version port_id outs = Inr ports" "j < length outs"
  shows "find (has_id (int (port_id + j))) ports = Some (ports ! j)"
proof -
  from assms have len: "j < length ports" by (simp add: output_ports_length)
  have "has_id (int (port_id + j)) (ports ! j)" using output_ports_nth [OF assms] by simp
  moreover have "\<not> has_id (int (port_id + j)) (ports ! k)" if "k < j" for k
  proof -
    from that assms(2) have "k < length outs" by simp
    from output_ports_nth [OF assms(1) this] have "has_id (int (port_id + k)) (ports ! k)" by simp
    with that show ?thesis by (auto simp: has_id_def)
  qed
  ultimately show ?thesis using len by (auto simp: find_Some_iff intro!: exI [of _ j])
qed

lemma output_ports_ids_above:
  assumes "output_ports version port_id outs = Inr ports" "p \<in> set ports"
  shows "\<exists>j < length outs. has_id (int (port_id + j)) p"
proof -
  from assms(2) obtain j where j: "j < length ports" "p = ports ! j" by (auto simp: in_set_conv_nth)
  then have "j < length outs" using assms(1) by (simp add: output_ports_length)
  with output_ports_nth [OF assms(1) this] j show ?thesis by blast
qed

lemma input_ports_id_list:
  "input_ports version lstm index port_id ins = Inr (ports, next_id) \<Longrightarrow>
   map (\<lambda>p. attribute p ''id'') ports =
     map (\<lambda>j. Some (Number (int (port_id + j))))
       (filter (\<lambda>j. \<not> (index + j = 6 \<and> lstm)) [0..<length ins])"
proof (induction ins arbitrary: index port_id ports)
  case Nil
  then show ?case by simp
next
  case (Cons i rest)
  have shift: "map (\<lambda>j. Some (Number (int (port_id + j))))
       (filter (\<lambda>j. \<not> (index + j = 6 \<and> lstm)) (map Suc [0..<length rest])) =
     map (\<lambda>j. Some (Number (int (port_id + 1 + j))))
       (filter (\<lambda>j. \<not> (index + 1 + j = 6 \<and> lstm)) [0..<length rest])"
    by (simp add: filter_map o_def)
  have upt: "[0..<length (i # rest)] = 0 # map Suc [0..<length rest]"
    by (simp add: upt_conv_Cons map_Suc_upt del: upt_Suc)
  show ?case
  proof (cases "index = 6 \<and> lstm")
    case True
    with Cons.prems have "input_ports version lstm (index + 1) (port_id + 1) rest = Inr (ports, next_id)"
      by simp
    from Cons.IH [OF this] show ?thesis unfolding upt using True shift by simp
  next
    case False
    with Cons.prems(1) obtain rt ports' where
      r: "input_ports version lstm (index + 1) (port_id + 1) rest = Inr (ports', next_id)"
      and p: "ports = Element ''port''
                      [(''id'', Number (int port_id)),
                       (''precision'', Text (get_precision_name (input_element_type i)))]
                      (dim_elements (input_partial_shape i) @ rt) # ports'"
      by (auto split: sum.splits prod.splits)
    from Cons.IH [OF r] show ?thesis unfolding upt using False shift
      by (simp add: p attribute_def)
  qed
qed

lemma append_runtime_info_shape:
  "append_runtime_info attributes = Inr rt \<Longrightarrow> rt = [] \<or> (\<exists>xs. rt = [Element ''rt_info'' [] xs])"
  by (auto simp: append_runtime_info_def split: sum.splits if_splits)

lemma versioned_runtime_info_shape:
  "versioned_runtime_info version attributes = Inr rt \<Longrightarrow>
   rt = [] \<or> (\<exists>xs. rt = [Element ''rt_info'' [] xs])"
  by (auto simp: versioned_runtime_info_def append_runtime_info_shape split: if_splits)

lemma children_of_layer_children:
  assumes "data = [] \<or> (\<exists>das. data = [Element ''data'' das []])"
    and "layer_rt = [] \<or> (\<exists>xs. layer_rt = [Element ''rt_info'' [] xs])"
  shows "children_of (Element t as (layer_children tn data layer_rt
           (if has_in then [Element ''input'' [] ip] else [])
           (if has_out then [Element ''output'' [] op] else []))) ''input'' =
         (if has_in then ip else [])"
    and "children_of (Element t as (layer_children tn data layer_rt
           (if has_in then [Element ''input'' [] ip] else [])
           (if has_out then [Element ''output'' [] op] else []))) ''output'' =
         (if has_out then op else [])"
  using assms by (auto simp: children_of_def child_def layer_children_def)

lemma layerE:
  assumes "layer layer_ids version deterministic exec_graph node unique_names cw = Inr (l, unique_names', cw')"
  obtains layer_id as data layer_rt in_ports out_ports where
    "layer_ids (address node) = Some layer_id"
    "versioned_runtime_info version (rt_info node) = Inr layer_rt"
    "input_ports version (is_LSTMCell_v0 node) 0 0 (inputs node) = Inr (in_ports, length (inputs node))"
    "outputs node \<noteq> [] \<and> \<not> is_output node \<longrightarrow>
       output_ports version (length (inputs node)) (outputs node) = Inr out_ports"
    "data = [] \<or> (\<exists>das. data = [Element ''data'' das []])"
    "l = Element ''layer'' ((''id'', Number layer_id) # as)
           (layer_children (type_name node) data layer_rt
              (if inputs node \<noteq> [] then [Element ''input'' [] in_ports] else [])
              (if outputs node \<noteq> [] \<and> \<not> is_output node then [Element ''output'' [] out_ports] else []))"
proof -
  from assms obtain layer_id where lid: "layer_ids (address node) = Some layer_id"
    by (auto simp: layer_def split: option.splits)
  from assms lid obtain layer_rt where rt: "versioned_runtime_info version (rt_info node) = Inr layer_rt"
    by (auto simp: layer_def Let_def split: sum.splits)
  from assms lid rt obtain in_ports port_id where
    ip: "input_ports version (is_LSTMCell_v0 node) 0 0 (inputs node) = Inr (in_ports, port_id)"
    by (auto simp: layer_def Let_def split: sum.splits)
  from input_ports_next [OF ip] have pid: "port_id = length (inputs node)" by simp
  from assms lid rt ip obtain out_ports where
    op: "(if outputs node \<noteq> [] \<and> \<not> is_output node
             then output_ports version port_id (outputs node) else Inr []) = Inr out_ports"
    by (auto simp: layer_def Let_def split: sum.splits)
  from assms lid rt ip op obtain shown where sh: "visited node = Some shown"
    by (auto simp: layer_def Let_def split: option.splits)
  from assms lid rt ip op sh obtain vattrs where
    va: "visit_attributes (type_name node) shown cw = Inr (vattrs, cw')"
    by (auto simp: layer_def Let_def split: sum.splits)
  let ?da = "vattrs @ rt_info_serialize (rt_info node) @
                 (if exec_graph then exec_graph_data (rt_info node) else [])"
  let ?data = "if ?da = [] then [] else [Element ''data'' ?da []]"
  from assms lid rt ip op sh va obtain as where
    l: "l = Element ''layer'' ((''id'', Number layer_id) # as)
           (layer_children (type_name node) ?data layer_rt
              (if inputs node \<noteq> [] then [Element ''input'' [] in_ports] else [])
              (if outputs node \<noteq> [] \<and> \<not> is_output node then [Element ''output'' [] out_ports] else []))"
    by (auto simp: layer_def Let_def)
  have d: "?data = [] \<or> (\<exists>das. ?data = [Element ''data'' das []])" by simp
  have op': "outputs node \<noteq> [] \<and> \<not> is_output node \<longrightarrow>
       output_ports version (length (inputs node)) (outputs node) = Inr out_ports"
    using op by (auto simp: pid)
  show ?thesis using lid rt ip [unfolded pid] op' d l by (rule that)
qed

text \<open>What the layer of a node holds: its number and its ports.\<close>

lemma layer_ports:
  assumes "layer layer_ids version deterministic exec_graph node unique_names cw = Inr (l, unique_names', cw')"
  shows "attribute l ''id'' = map_option Number (layer_ids (address node))"
    and "\<And>j. j < length (inputs node) \<Longrightarrow> j = 6 \<and> is_LSTMCell_v0 node \<Longrightarrow>
           port_by_id l (int j) = None"
    and "\<And>j. j < length (inputs node) \<Longrightarrow> \<not> (j = 6 \<and> is_LSTMCell_v0 node) \<Longrightarrow>
           \<exists>p. port_by_id l (int j) = Some p \<and> p \<in> set (children_of l ''input'') \<and>
               versioned_runtime_info version (input_rt_info (inputs node ! j)) = Inr (port_rt_info p)"
    and "\<And>j. j < length (outputs node) \<Longrightarrow> \<not> is_output node \<Longrightarrow>
           \<exists>p. port_by_id l (int (length (inputs node) + j)) = Some p \<and>
               p \<in> set (children_of l ''output'') \<and>
               versioned_runtime_info version (output_rt_info (outputs node ! j)) = Inr (port_rt_info p)"
    and "map (\<lambda>p. attribute p ''id'') (children_of l ''input'') =
           map (\<lambda>j. Some (Number (int j)))
             (filter (\<lambda>j. \<not> (j = 6 \<and> is_LSTMCell_v0 node)) [0..<length (inputs node)])"
    and "\<not> is_output node \<Longrightarrow>
         map (\<lambda>p. attribute p ''id'') (children_of l ''output'') =
           map (\<lambda>j. Some (Number (int (length (inputs node) + j)))) [0..<length (outputs node)]"
proof -
  from assms obtain layer_id as data layer_rt in_ports out_ports where
    lid: "layer_ids (address node) = Some layer_id"
    and rt: "versioned_runtime_info version (rt_info node) = Inr layer_rt"
    and ip: "input_ports version (is_LSTMCell_v0 node) 0 0 (inputs node) = Inr (in_ports, length (inputs node))"
    and op0: "outputs node \<noteq> [] \<and> \<not> is_output node \<longrightarrow>
       output_ports version (length (inputs node)) (outputs node) = Inr out_ports"
    and d: "data = [] \<or> (\<exists>das. data = [Element ''data'' das []])"
    and l: "l = Element ''layer'' ((''id'', Number layer_id) # as)
           (layer_children (type_name node) data layer_rt
              (if inputs node \<noteq> [] then [Element ''input'' [] in_ports] else [])
              (if outputs node \<noteq> [] \<and> \<not> is_output node then [Element ''output'' [] out_ports] else []))"
    by (rule layerE)
  note op = op0 [rule_format]
  note sh = versioned_runtime_info_shape [OF rt]
  have in_nil: "in_ports = []" if "inputs node = []" using ip that by simp
  have ci: "children_of l ''input'' = in_ports"
    using children_of_layer_children(1) [OF d sh] in_nil by (simp add: l)
  have co: "children_of l ''output'' = (if outputs node \<noteq> [] \<and> \<not> is_output node then out_ports else [])"
    using children_of_layer_children(2) [OF d sh] by (simp add: l)
  show "attribute l ''id'' = map_option Number (layer_ids (address node))"
    by (simp add: l lid attribute_def)
  have below: "find (has_id (int (length (inputs node) + j))) in_ports = None" for j
  proof -
    have "\<not> has_id (int (length (inputs node) + j)) p" if "p \<in> set in_ports" for p
    proof -
      from input_ports_ids [OF ip that] obtain k where "k < length (inputs node)" "has_id (int (0 + k)) p"
        by blast
      then show ?thesis by (auto simp: has_id_def)
    qed
    then show ?thesis by (auto simp: find_None_iff)
  qed
  have above: "find (has_id (int j)) (if outputs node \<noteq> [] \<and> \<not> is_output node then out_ports else []) = None"
    if "j < length (inputs node)" for j
  proof (cases "outputs node \<noteq> [] \<and> \<not> is_output node")
    case True
    have "\<not> has_id (int j) p" if "p \<in> set out_ports" for p
    proof -
      from output_ports_ids_above [OF op [OF True] that] obtain k where
        "has_id (int (length (inputs node) + k)) p" by blast
      with \<open>j < length (inputs node)\<close> show ?thesis by (auto simp: has_id_def)
    qed
    with True show ?thesis by (auto simp: find_None_iff)
  next
    case False
    then show ?thesis by auto
  qed
  {
    fix j assume j: "j < length (inputs node)" and skip: "j = 6 \<and> is_LSTMCell_v0 node"
    from input_ports_find [OF ip j] skip have "find (has_id (int j)) in_ports = None" by simp
    with above [OF j] show "port_by_id l (int j) = None"
      by (simp add: port_by_id_def ports_of_def ci co find_append_cases)
  }
  {
    fix j assume j: "j < length (inputs node)" and keep: "\<not> (j = 6 \<and> is_LSTMCell_v0 node)"
    from input_ports_find [OF ip j] keep obtain p where
      p: "find (has_id (int j)) in_ports = Some p"
        "versioned_runtime_info version (input_rt_info (inputs node ! j)) = Inr (port_rt_info p)"
      by auto
    from p(1) have "p \<in> set in_ports" by (auto simp: find_Some_iff)
    with p show "\<exists>p. port_by_id l (int j) = Some p \<and> p \<in> set (children_of l ''input'') \<and>
               versioned_runtime_info version (input_rt_info (inputs node ! j)) = Inr (port_rt_info p)"
      by (simp add: port_by_id_def ports_of_def ci co find_append_cases)
  }
  {
    fix j assume j: "j < length (outputs node)" and no: "\<not> is_output node"
    then have t: "outputs node \<noteq> [] \<and> \<not> is_output node" by auto
    note o = op [OF t]
    from output_ports_find [OF o j] output_ports_nth [OF o j] output_ports_length [OF o] j
    show "\<exists>p. port_by_id l (int (length (inputs node) + j)) = Some p \<and>
               p \<in> set (children_of l ''output'') \<and>
               versioned_runtime_info version (output_rt_info (outputs node ! j)) = Inr (port_rt_info p)"
      by (auto simp: port_by_id_def ports_of_def ci co t find_append_cases below [simplified])
  }
  show "map (\<lambda>p. attribute p ''id'') (children_of l ''input'') =
           map (\<lambda>j. Some (Number (int j)))
             (filter (\<lambda>j. \<not> (j = 6 \<and> is_LSTMCell_v0 node)) [0..<length (inputs node)])"
    using input_ports_id_list [OF ip] by (simp add: ci)
  show "map (\<lambda>p. attribute p ''id'') (children_of l ''output'') =
           map (\<lambda>j. Some (Number (int (length (inputs node) + j)))) [0..<length (outputs node)]"
    if no: "\<not> is_output node"
  proof (cases "outputs node = []")
    case True
    then show ?thesis by (simp add: co)
  next
    case False
    with no have t: "outputs node \<noteq> [] \<and> \<not> is_output node" by simp
    note o = op [OF t]
    show ?thesis
    proof (rule nth_equalityI)
      show "length (map (\<lambda>p. attribute p ''id'') (children_of l ''output'')) =
            length (map (\<lambda>j. Some (Number (int (length (inputs node) + j)))) [0..<length (outputs node)])"
        using output_ports_length [OF o] by (simp add: co t)
    next
      fix j assume "j < length (map (\<lambda>p. attribute p ''id'') (children_of l ''output''))"
      then have j: "j < length (outputs node)" using output_ports_length [OF o] by (simp add: co t)
      from output_ports_nth [OF o j] have "has_id (int (length (inputs node) + j)) (out_ports ! j)" by simp
      then show "map (\<lambda>p. attribute p ''id'') (children_of l ''output'') ! j =
            map (\<lambda>j. Some (Number (int (length (inputs node) + j)))) [0..<length (outputs node)] ! j"
        using j output_ports_length [OF o] by (simp add: co t has_id_def)
    qed
  qed
qed

lemma layers_loop_nth:
  "layers_loop layer_ids version deterministic exec_graph ns unique_names cw = Inr (ls, cw') \<Longrightarrow>
   length ls = length ns \<and>
   (\<forall>k < length ns. \<exists>u c u' c'.
      layer layer_ids version deterministic exec_graph (ns ! k) u c = Inr (ls ! k, u', c'))"
proof (induction ns arbitrary: unique_names cw ls)
  case Nil
  then show ?case by simp
next
  case (Cons n rest)
  from Cons.prems obtain l u1 c1 ls' where
    h: "layer layer_ids version deterministic exec_graph n unique_names cw = Inr (l, u1, c1)"
    and r: "layers_loop layer_ids version deterministic exec_graph rest u1 c1 = Inr (ls', cw')"
    and ls: "ls = l # ls'"
    by (auto split: sum.splits prod.splits)
  from Cons.IH [OF r] have len: "length ls' = length rest"
    and nth: "\<forall>k < length rest. \<exists>u c u' c'.
      layer layer_ids version deterministic exec_graph (rest ! k) u c = Inr (ls' ! k, u', c')"
    by simp_all
  show ?case
  proof (intro conjI allI impI)
    show "length ls = length (n # rest)" by (simp add: ls len)
  next
    fix k assume "k < length (n # rest)"
    then show "\<exists>u c u' c'.
      layer layer_ids version deterministic exec_graph ((n # rest) ! k) u c = Inr (ls ! k, u', c')"
      using h nth by (cases k) (auto simp: ls)
  qed
qed

lemma ngfunction_2_irE:
  assumes "ngfunction_2_ir f cw version deterministic = Inr (net, cw')"
  obtains as ls es where
    "layers_loop (create_layer_ids f) version deterministic (is_exec_graph f) (sorted_ops f version) [] cw =
       Inr (ls, cw')"
    "create_edge_mapping (create_layer_ids f) f = Inr es"
    "net = Element ''net'' as
       [Element ''layers'' [] ls,
        Element ''edges'' [] (map edge_xml (filter (\<lambda>e. \<not> skipped_edge f e) es))]"
  using assms by (auto simp: ngfunction_2_ir_def Let_def split: sum.splits prod.splits)

lemma children_of_net:
  "children_of (Element ''net'' as [Element ''layers'' [] ls, Element ''edges'' [] es]) ''layers'' = ls"
  "children_of (Element ''net'' as [Element ''layers'' [] ls, Element ''edges'' [] es]) ''edges'' = es"
  by (simp_all add: children_of_def child_def)

text \<open>The layer identifiers.\<close>

lemma fold_layer_ids_notin:
  "a \<notin> address ` fst ` set ps \<Longrightarrow>
   fold (\<lambda>(node, i) layer_ids. layer_ids(address node \<mapsto> int i)) ps m a = m a"
  by (induction ps arbitrary: m) (auto split: prod.splits)

lemma fold_layer_ids_Some:
  "fold (\<lambda>(node, i) layer_ids. layer_ids(address node \<mapsto> int i)) ps m a = Some k \<Longrightarrow>
   m a = Some k \<or> (\<exists>(node, i) \<in> set ps. address node = a \<and> k = int i)"
proof (induction ps arbitrary: m)
  case Nil
  then show ?case by simp
next
  case (Cons p ps)
  obtain node i where p: "p = (node, i)" by (cases p)
  from Cons.prems have
    "fold (\<lambda>(node, i) layer_ids. layer_ids(address node \<mapsto> int i)) ps (m(address node \<mapsto> int i)) a = Some k"
    unfolding p by (simp only: fold_Cons comp_apply case_prod_conv)
  from Cons.IH [OF this] show ?case by (auto simp: p split: if_splits)
qed

lemma create_layer_ids_Some:
  assumes "create_layer_ids f a = Some k"
  shows "\<exists>i < length (ordered_ops f). k = int i \<and> address (ordered_ops f ! i) = a"
proof -
  from fold_layer_ids_Some [OF assms [unfolded create_layer_ids_def]]
  obtain node i where "(node, i) \<in> set (zip (ordered_ops f) [0..<length (ordered_ops f)])"
    "address node = a" "k = int i" by auto
  then show ?thesis by (auto simp: set_zip)
qed

lemma create_layer_ids_in:
  assumes "n \<in> set (ordered_ops f)"
  shows "\<exists>k. create_layer_ids f (address n) = Some k"
proof -
  have "fold (\<lambda>(node, i) layer_ids. layer_ids(address node \<mapsto> int i)) ps m (address n) \<noteq> None"
    if "n \<in> fst ` set ps \<or> m (address n) \<noteq> None" for ps m
    using that by (induction ps arbitrary: m) (auto split: prod.splits)
  moreover have "n \<in> fst ` set (zip (ordered_ops f) [0..<length (ordered_ops f)])"
    using assms by (auto simp: in_set_conv_nth set_zip image_iff intro!: bexI [of _ "(n, _)"])
  ultimately show ?thesis unfolding create_layer_ids_def by blast
qed

lemma node_edges_mem:
  "node_edges layer_ids f current_node index ins = Inr es \<Longrightarrow> e \<in> set es \<Longrightarrow>
   \<exists>j < length ins. \<exists>producer.
     layer_ids (source_node (ins ! j)) = Some (from_layer e) \<and>
     layer_ids (address current_node) = Some (to_layer e) \<and>
     find (\<lambda>m. address m = source_node (ins ! j)) (ordered_ops f) = Some producer \<and>
     from_port e = int (length (inputs producer)) + int (source_index (ins ! j)) \<and>
     to_port e = int (index + j)"
proof (induction ins arbitrary: index es)
  case Nil
  then show ?case by simp
next
  case (Cons i rest)
  from Cons.prems(1) obtain from_id to_id producer es' where
    a: "layer_ids (source_node i) = Some from_id" "layer_ids (address current_node) = Some to_id"
      "find (\<lambda>m. address m = source_node i) (ordered_ops f) = Some producer"
    and r: "node_edges layer_ids f current_node (index + 1) rest = Inr es'"
    and es: "es = \<lparr>from_layer = from_id,
                     from_port = int (length (inputs producer)) + int (source_index i),
                     to_layer = to_id, to_port = int index\<rparr> # es'"
    by (auto split: option.splits sum.splits)
  show ?case
  proof (cases "e \<in> set es'")
    case True
    from Cons.IH [OF r True] obtain j producer' where
      "j < length rest" "layer_ids (source_node (rest ! j)) = Some (from_layer e)"
      "layer_ids (address current_node) = Some (to_layer e)"
      "find (\<lambda>m. address m = source_node (rest ! j)) (ordered_ops f) = Some producer'"
      "from_port e = int (length (inputs producer')) + int (source_index (rest ! j))"
      "to_port e = int (index + 1 + j)"
      by blast
    then show ?thesis by (intro exI [of _ "Suc j"]) simp
  next
    case False
    with Cons.prems(2) es have "e = \<lparr>from_layer = from_id,
                     from_port = int (length (inputs producer)) + int (source_index i),
                     to_layer = to_id, to_port = int index\<rparr>" by simp
    with a show ?thesis by (intro exI [of _ 0]) simp
  qed
qed

lemma all_edges_mem:
  "all_edges layer_ids f ns = Inr es \<Longrightarrow> e \<in> set es \<Longrightarrow>
   \<exists>consumer \<in> set ns. \<exists>j < length (inputs consumer). \<exists>producer.
     layer_ids (source_node (inputs consumer ! j)) = Some (from_layer e) \<and>
     layer_ids (address consumer) = Some (to_layer e) \<and>
     find (\<lambda>m. address m = source_node (inputs consumer ! j)) (ordered_ops f) = Some producer \<and>
     from_port e = int (length (inputs producer)) + int (source_index (inputs consumer ! j)) \<and>
     to_port e = int j"
proof (induction ns arbitrary: es)
  case Nil
  then show ?case by simp
next
  case (Cons n rest)
  show ?case
  proof (cases "is_parameter n")
    case True
    with Cons.prems have "all_edges layer_ids f rest = Inr es" by simp
    from Cons.IH [OF this Cons.prems(2)] show ?thesis by auto
  next
    case False
    with Cons.prems(1) obtain es1 es2 where
      h: "node_edges layer_ids f n 0 (inputs n) = Inr es1"
      and r: "all_edges layer_ids f rest = Inr es2" and es: "es = es1 @ es2"
      by (auto split: sum.splits)
    show ?thesis
    proof (cases "e \<in> set es1")
      case True
      from node_edges_mem [OF h True] show ?thesis by auto
    next
      case F: False
      with Cons.prems(2) es have "e \<in> set es2" by simp
      from Cons.IH [OF r this] show ?thesis by auto
    qed
  qed
qed

lemma create_edge_mapping_props:
  assumes "create_edge_mapping layer_ids f = Inr es"
  shows "sorted (map from_layer es)"
    and "e \<in> set es \<Longrightarrow>
      \<exists>consumer \<in> set (ordered_ops f). \<exists>j < length (inputs consumer). \<exists>producer.
        layer_ids (source_node (inputs consumer ! j)) = Some (from_layer e) \<and>
        layer_ids (address consumer) = Some (to_layer e) \<and>
        find (\<lambda>m. address m = source_node (inputs consumer ! j)) (ordered_ops f) = Some producer \<and>
        from_port e = int (length (inputs producer)) + int (source_index (inputs consumer ! j)) \<and>
        to_port e = int j"
proof -
  from assms obtain es0 where a: "all_edges layer_ids f (ordered_ops f) = Inr es0"
    and s: "es = sort_key from_layer es0"
    by (auto simp: create_edge_mapping_def split: sum.splits)
  show "sorted (map from_layer es)" by (simp add: s)
  assume "e \<in> set es"
  then have "e \<in> set es0" by (simp add: s)
  from all_edges_mem [OF a this] show
    "\<exists>consumer \<in> set (ordered_ops f). \<exists>j < length (inputs consumer). \<exists>producer.
        layer_ids (source_node (inputs consumer ! j)) = Some (from_layer e) \<and>
        layer_ids (address consumer) = Some (to_layer e) \<and>
        find (\<lambda>m. address m = source_node (inputs consumer ! j)) (ordered_ops f) = Some producer \<and>
        from_port e = int (length (inputs producer)) + int (source_index (inputs consumer ! j)) \<and>
        to_port e = int j" .
qed

lemma sorted_filter_map:
  "sorted (map f xs) \<Longrightarrow> sorted (map f (filter P xs))"
  by (induction xs) auto

lemma sorted_ops_subset: "set (sorted_ops f version) \<subseteq> set (function_nodes f)"
  by (auto simp: sorted_ops_def function_nodes_def)

lemma ordered_in_sorted_ops:
  assumes "wf_function f" "n \<in> set (ordered_ops f)"
  shows "n \<in> set (sorted_ops f version)"
proof (cases "version \<ge> 11")
  case True
  from assms have "(is_parameter n \<longrightarrow> n \<in> set (parameters f)) \<and>
         (is_sink n \<longrightarrow> n \<in> set (sinks f)) \<and> (is_output n \<longrightarrow> n \<in> set (results f))"
    unfolding wf_function_def by blast
  with True assms(2) show ?thesis by (auto simp: sorted_ops_def)
next
  case False
  with assms(2) show ?thesis by (simp add: sorted_ops_def)
qed

lemma wf_same_address:
  assumes "wf_function f" "a \<in> set (function_nodes f)" "b \<in> set (function_nodes f)"
    "address a = address b"
  shows "a = b"
  using assms unfolding wf_function_def by blast

text \<open>What \<open>append_runtime_info\<close> writes is what a port is to carry.\<close>

lemma rt_visit_carried:
  "rt_visit shown = Inr as \<Longrightarrow>
   as = map (\<lambda>(name, v). (name, Text (case v of Printable s \<Rightarrow> s | _ \<Rightarrow> []))) shown"
proof (induction shown arbitrary: as)
  case Nil
  then show ?case by simp
next
  case (Cons a rest)
  obtain name v where a: "a = (name, v)" by (cases a)
  from Cons.prems obtain x xs where
    x: "rt_on_adapter (name, v) = Inr x" and xs: "rt_visit rest = Inr xs" and as: "as = x # xs"
    by (auto simp: a split: sum.splits)
  from x have "x = (name, Text (case v of Printable s \<Rightarrow> s | _ \<Rightarrow> []))"
    by (cases v) (auto split: if_splits)
  with Cons.IH [OF xs] show ?case by (simp add: as a)
qed

lemma runtime_attributes_carried:
  "runtime_attributes rt = Inr xs \<Longrightarrow>
   xs = map (\<lambda>(key, item).
          Element ''attribute''
            ([(''name'', Text (variant_type_name item)), (''version'', Text (variant_version item))] @
             map (\<lambda>(name, v). (name, Text (case v of Printable s \<Rightarrow> s | _ \<Rightarrow> [])))
               (the (variant_visit item))) [])
        (filter (\<lambda>(key, item). variant_visit item \<noteq> None) rt)"
proof (induction rt arbitrary: xs)
  case Nil
  then show ?case by simp
next
  case (Cons a rest)
  obtain key item where a: "a = (key, item)" by (cases a)
  show ?case
  proof (cases "variant_visit item")
    case None
    with Cons show ?thesis by (simp add: a)
  next
    case (Some shown)
    with Cons.prems obtain as ys where
      as: "rt_visit shown = Inr as" and ys: "runtime_attributes rest = Inr ys"
      and xs: "xs = Element ''attribute''
                 ([(''name'', Text (variant_type_name item)), (''version'', Text (variant_version item))] @ as) [] # ys"
      by (auto simp: a split: sum.splits)
    from rt_visit_carried [OF as] Cons.IH [OF ys] show ?thesis
      by (simp add: xs a Some)
  qed
qed

lemma append_runtime_info_carried:
  "append_runtime_info rt = Inr xs \<Longrightarrow> xs = carried_runtime_info rt"
  by (auto simp: append_runtime_info_def carried_runtime_info_def Let_def
      dest!: runtime_attributes_carried split: sum.splits)

lemma versioned_runtime_info_carried:
  "versioned_runtime_info version rt = Inr xs \<Longrightarrow>
   xs = (if version \<ge> 11 then carried_runtime_info rt else [])"
  by (auto simp: versioned_runtime_info_def dest: append_runtime_info_carried split: if_splits)


subsection \<open>The order of the layers, the LSTM cell and the edges\<close>

text \<open>
  C7. From version 11 on the layers are written in the order: the parameters of the
  function, then the nodes of the topological order that are neither parameter nor result
  nor sink, then the sinks, then the results; for version 10 they follow the topological
  order. The k-th layer is the one built from the k-th node of that order and has that
  node's identifier, and in a well-formed function every node of the topological order is
  in that order, so that it gets a layer. From version 11 on a port carries the runtime
  information of its input or output: an \<open>rt_info\<close> element with one \<open>attribute\<close>
  element, with type name, version and values, for each runtime attribute that can be
  visited. For version 10 a port has no \<open>rt_info\<close> element.
\<close>

theorem ngfunction_2_ir_layer_order:
  assumes run: "ngfunction_2_ir f cw version deterministic = Inr (net, cw')"
    and order: "order = (if version \<ge> 11
        then parameters f @
             filter (\<lambda>n. \<not> is_parameter n \<and> \<not> is_output n \<and> \<not> is_sink n) (ordered_ops f) @
             sinks f @ results f
        else ordered_ops f)"
    and layers: "layers = children_of net ''layers''"
  shows "length layers = length order \<and>
    (wf_function f \<longrightarrow> set (ordered_ops f) \<subseteq> set order) \<and>
    (\<forall>k < length order.
       attribute (layers ! k) ''id'' = map_option Number (create_layer_ids f (address (order ! k))) \<and>
       (\<forall>j < length (inputs (order ! k)). \<not> (j = 6 \<and> is_LSTMCell_v0 (order ! k)) \<longrightarrow>
          (\<exists>p. port_by_id (layers ! k) (int j) = Some p \<and>
               port_rt_info p =
                 (if version \<ge> 11 then carried_runtime_info (input_rt_info (inputs (order ! k) ! j))
                  else []))) \<and>
       (\<forall>j < length (outputs (order ! k)). \<not> is_output (order ! k) \<longrightarrow>
          (\<exists>p. port_by_id (layers ! k) (int (length (inputs (order ! k)) + j)) = Some p \<and>
               port_rt_info p =
                 (if version \<ge> 11 then carried_runtime_info (output_rt_info (outputs (order ! k) ! j))
                  else []))))"
proof -
  from run obtain as ls es where
    loop: "layers_loop (create_layer_ids f) version deterministic (is_exec_graph f)
             (sorted_ops f version) [] cw = Inr (ls, cw')"
    and net: "net = Element ''net'' as
       [Element ''layers'' [] ls,
        Element ''edges'' [] (map edge_xml (filter (\<lambda>e. \<not> skipped_edge f e) es))]"
    by (rule ngfunction_2_irE)
  have o: "order = sorted_ops f version" by (simp add: order sorted_ops_def)
  have l: "layers = ls" by (simp add: layers net children_of_net)
  from layers_loop_nth [OF loop] have len: "length ls = length order"
    and nth: "\<forall>k < length order. \<exists>u c u' c'.
      layer (create_layer_ids f) version deterministic (is_exec_graph f) (order ! k) u c =
        Inr (ls ! k, u', c')"
    by (simp_all add: o)
  have all: "wf_function f \<longrightarrow> set (ordered_ops f) \<subseteq> set order"
    using ordered_in_sorted_ops [of f _ version] by (auto simp: o)
  have each: "attribute (ls ! k) ''id'' = map_option Number (create_layer_ids f (address (order ! k))) \<and>
       (\<forall>j < length (inputs (order ! k)). \<not> (j = 6 \<and> is_LSTMCell_v0 (order ! k)) \<longrightarrow>
          (\<exists>p. port_by_id (ls ! k) (int j) = Some p \<and>
               port_rt_info p =
                 (if version \<ge> 11 then carried_runtime_info (input_rt_info (inputs (order ! k) ! j))
                  else []))) \<and>
       (\<forall>j < length (outputs (order ! k)). \<not> is_output (order ! k) \<longrightarrow>
          (\<exists>p. port_by_id (ls ! k) (int (length (inputs (order ! k)) + j)) = Some p \<and>
               port_rt_info p =
                 (if version \<ge> 11 then carried_runtime_info (output_rt_info (outputs (order ! k) ! j))
                  else [])))"
    if k: "k < length order" for k
  proof -
    from nth k obtain u c u' c' where
      lay: "layer (create_layer_ids f) version deterministic (is_exec_graph f) (order ! k) u c =
        Inr (ls ! k, u', c')" by blast
    note p = layer_ports [OF lay]
    show ?thesis
    proof (intro conjI allI impI)
      show "attribute (ls ! k) ''id'' = map_option Number (create_layer_ids f (address (order ! k)))"
        by (rule p(1))
    next
      fix j assume "j < length (inputs (order ! k))" "\<not> (j = 6 \<and> is_LSTMCell_v0 (order ! k))"
      from p(3) [OF this] obtain q where
        q: "port_by_id (ls ! k) (int j) = Some q"
          "versioned_runtime_info version (input_rt_info (inputs (order ! k) ! j)) = Inr (port_rt_info q)"
        by blast
      from q(1) versioned_runtime_info_carried [OF q(2)]
      show "\<exists>p. port_by_id (ls ! k) (int j) = Some p \<and>
               port_rt_info p =
                 (if version \<ge> 11 then carried_runtime_info (input_rt_info (inputs (order ! k) ! j))
                  else [])"
        by blast
    next
      fix j assume "j < length (outputs (order ! k))" "\<not> is_output (order ! k)"
      from p(4) [OF this] obtain q where
        q: "port_by_id (ls ! k) (int (length (inputs (order ! k)) + j)) = Some q"
          "versioned_runtime_info version (output_rt_info (outputs (order ! k) ! j)) = Inr (port_rt_info q)"
        by blast
      from q(1) versioned_runtime_info_carried [OF q(2)]
      show "\<exists>p. port_by_id (ls ! k) (int (length (inputs (order ! k)) + j)) = Some p \<and>
               port_rt_info p =
                 (if version \<ge> 11 then carried_runtime_info (output_rt_info (outputs (order ! k) ! j))
                  else [])"
        by blast
    qed
  qed
  show ?thesis using len all each by (simp add: l)
qed

lemma two_branch_run:
  "\<exists>net cw'. ngfunction_2_ir two_branch_function (ConstantWriter_new 0 True) 11 False = Inr (net, cw')"
proof -
  have "isl (ngfunction_2_ir two_branch_function (ConstantWriter_new 0 True) 11 False) = False"
    by code_simp
  then show ?thesis by (cases "ngfunction_2_ir two_branch_function (ConstantWriter_new 0 True) 11 False") auto
qed

lemma tagged_run:
  "\<exists>net cw'. ngfunction_2_ir tagged_function (ConstantWriter_new 0 True) version False = Inr (net, cw')"
  if "version = 10 \<or> version = 11"
proof -
  have "isl (ngfunction_2_ir tagged_function (ConstantWriter_new 0 True) 10 False) = False"
    "isl (ngfunction_2_ir tagged_function (ConstantWriter_new 0 True) 11 False) = False"
    by code_simp+
  with that have "isl (ngfunction_2_ir tagged_function (ConstantWriter_new 0 True) version False) = False"
    by auto
  then show ?thesis
    by (cases "ngfunction_2_ir tagged_function (ConstantWriter_new 0 True) version False") auto
qed

lemma wf_tagged_function: "wf_function tagged_function"
  by (simp add: wf_function_def function_nodes_def tagged_function_def tagged_nodes_def
      example_node_def example_input_def tagged_input_def is_parameter_def is_sink_def is_output_def)

text \<open>
  On the function with the sink, which is well-formed, version 11 writes the layers of the nodes 0, 2, 1, 3 of
  the topological order, and the input port and the output port of the Relu have the
  \<open>rt_info\<close> element with the one attribute that can be visited; version 10 writes the
  layers 0, 1, 2, 3 and the two ports have no such element.
\<close>

theorem ngfunction_2_ir_layer_order_witness:
  "wf_function tagged_function \<and>
   set (ordered_ops tagged_function) \<subseteq>
     set [tagged_nodes ! 0, tagged_nodes ! 2, tagged_nodes ! 1, tagged_nodes ! 3] \<and>
   (\<exists>net cw'. ngfunction_2_ir tagged_function (ConstantWriter_new 0 True) 11 False = Inr (net, cw') \<and>
     map (\<lambda>l. attribute l ''id'') (children_of net ''layers'') =
       [Some (Number 0), Some (Number 2), Some (Number 1), Some (Number 3)] \<and>
     map (\<lambda>i. map_option port_rt_info (port_by_id (children_of net ''layers'' ! 1) i)) [0, 1] =
       [Some [Element ''rt_info'' []
          [Element ''attribute''
             [(''name'', Text ''fused_names''), (''version'', Text ''0''), (''value'', Text ''conv,relu'')] []]],
        Some [Element ''rt_info'' []
          [Element ''attribute''
             [(''name'', Text ''fused_names''), (''version'', Text ''0''), (''value'', Text ''conv,relu'')] []]]]) \<and>
   (\<exists>net cw'. ngfunction_2_ir tagged_function (ConstantWriter_new 0 True) 10 False = Inr (net, cw') \<and>
     map (\<lambda>l. attribute l ''id'') (children_of net ''layers'') =
       [Some (Number 0), Some (Number 1), Some (Number 2), Some (Number 3)] \<and>
     map (\<lambda>i. map_option port_rt_info (port_by_id (children_of net ''layers'' ! 2) i)) [0, 1] =
       [Some [], Some []])"
proof -
  have shape: "set (ordered_ops tagged_function) \<subseteq> set nodes \<and>
    (\<exists>net cw'. ngfunction_2_ir tagged_function (ConstantWriter_new 0 True) version False = Inr (net, cw') \<and>
     map (\<lambda>l. attribute l ''id'') (children_of net ''layers'') = ids \<and>
     map (\<lambda>i. map_option port_rt_info (port_by_id (children_of net ''layers'' ! k) i)) [0, 1] =
       [Some (if version \<ge> 11 then carried_runtime_info (input_rt_info (tagged_input 10)) else []),
        Some (if version \<ge> 11 then carried_runtime_info (output_rt_info tagged_output) else [])])"
    if v: "version = 10 \<or> version = 11"
      and ord: "(if version \<ge> 11
        then parameters tagged_function @
             filter (\<lambda>n. \<not> is_parameter n \<and> \<not> is_output n \<and> \<not> is_sink n)
               (ordered_ops tagged_function) @
             sinks tagged_function @ results tagged_function
        else ordered_ops tagged_function) = nodes"
      and ids: "map (\<lambda>n. map_option Number (create_layer_ids tagged_function (address n))) nodes = ids"
      and len: "length nodes = 4" and k: "k < 4" "nodes ! k = tagged_nodes ! 2"
    for version nodes ids k
  proof -
    from tagged_run [OF v] obtain net cw' where
      run: "ngfunction_2_ir tagged_function (ConstantWriter_new 0 True) version False = Inr (net, cw')"
      by blast
    define layers where "layers = children_of net ''layers''"
    have relu: "inputs (tagged_nodes ! 2) = [tagged_input 10]" "outputs (tagged_nodes ! 2) = [tagged_output]"
      "\<not> is_LSTMCell_v0 (tagged_nodes ! 2)" "\<not> is_output (tagged_nodes ! 2)"
      by (simp_all add: tagged_nodes_def example_node_def is_LSTMCell_v0_def is_output_def)
    from ngfunction_2_ir_layer_order [OF run ord [symmetric] layers_def]
    have l: "length layers = length nodes"
      and sub: "wf_function tagged_function \<longrightarrow> set (ordered_ops tagged_function) \<subseteq> set nodes"
      and nth: "\<forall>k < length nodes. attribute (layers ! k) ''id'' =
         map_option Number (create_layer_ids tagged_function (address (nodes ! k)))"
      and inp: "\<forall>j < length (inputs (nodes ! k)). \<not> (j = 6 \<and> is_LSTMCell_v0 (nodes ! k)) \<longrightarrow>
          (\<exists>p. port_by_id (layers ! k) (int j) = Some p \<and>
               port_rt_info p =
                 (if version \<ge> 11 then carried_runtime_info (input_rt_info (inputs (nodes ! k) ! j))
                  else []))"
      and out: "\<forall>j < length (outputs (nodes ! k)). \<not> is_output (nodes ! k) \<longrightarrow>
          (\<exists>p. port_by_id (layers ! k) (int (length (inputs (nodes ! k)) + j)) = Some p \<and>
               port_rt_info p =
                 (if version \<ge> 11 then carried_runtime_info (output_rt_info (outputs (nodes ! k) ! j))
                  else []))"
      using k(1) len by simp_all
    have "map (\<lambda>l. attribute l ''id'') layers =
          map (\<lambda>n. map_option Number (create_layer_ids tagged_function (address n))) nodes"
      using l nth by (intro nth_equalityI) simp_all
    moreover from inp [rule_format, of 0] have
      "map_option port_rt_info (port_by_id (layers ! k) 0) =
         Some (if version \<ge> 11 then carried_runtime_info (input_rt_info (tagged_input 10)) else [])"
      by (auto simp: k(2) relu)
    moreover from out [rule_format, of 0] have
      "map_option port_rt_info (port_by_id (layers ! k) 1) =
         Some (if version \<ge> 11 then carried_runtime_info (output_rt_info tagged_output) else [])"
      by (auto simp: k(2) relu)
    ultimately show ?thesis using run ids sub wf_tagged_function by (auto simp: layers_def)
  qed
  have carried: "carried_runtime_info (input_rt_info (tagged_input 10)) =
      [Element ''rt_info'' []
          [Element ''attribute''
             [(''name'', Text ''fused_names''), (''version'', Text ''0''), (''value'', Text ''conv,relu'')] []]]"
    "carried_runtime_info (output_rt_info tagged_output) =
      [Element ''rt_info'' []
          [Element ''attribute''
             [(''name'', Text ''fused_names''), (''version'', Text ''0''), (''value'', Text ''conv,relu'')] []]]"
    by (simp_all add: carried_runtime_info_def tagged_input_def tagged_output_def fused_names_def
        opaque_attribute_def example_input_def example_output_def)
  have eleven: "(if (11::int) \<ge> 11
        then parameters tagged_function @
             filter (\<lambda>n. \<not> is_parameter n \<and> \<not> is_output n \<and> \<not> is_sink n)
               (ordered_ops tagged_function) @
             sinks tagged_function @ results tagged_function
        else ordered_ops tagged_function) =
      [tagged_nodes ! 0, tagged_nodes ! 2, tagged_nodes ! 1, tagged_nodes ! 3]"
    by (simp add: tagged_function_def tagged_nodes_def example_node_def is_parameter_def
        is_output_def is_sink_def)
  have ten: "(if (10::int) \<ge> 11
        then parameters tagged_function @
             filter (\<lambda>n. \<not> is_parameter n \<and> \<not> is_output n \<and> \<not> is_sink n)
               (ordered_ops tagged_function) @
             sinks tagged_function @ results tagged_function
        else ordered_ops tagged_function) =
      [tagged_nodes ! 0, tagged_nodes ! 1, tagged_nodes ! 2, tagged_nodes ! 3]"
    by (simp add: tagged_function_def tagged_nodes_def)
  have ids11: "map (\<lambda>n. map_option Number (create_layer_ids tagged_function (address n)))
        [tagged_nodes ! 0, tagged_nodes ! 2, tagged_nodes ! 1, tagged_nodes ! 3] =
      [Some (Number 0), Some (Number 2), Some (Number 1), Some (Number 3)]"
    by code_simp
  have ids10: "map (\<lambda>n. map_option Number (create_layer_ids tagged_function (address n)))
        [tagged_nodes ! 0, tagged_nodes ! 1, tagged_nodes ! 2, tagged_nodes ! 3] =
      [Some (Number 0), Some (Number 1), Some (Number 2), Some (Number 3)]"
    by code_simp
  from shape [of 11, OF _ eleven ids11, of 1] shape [of 10, OF _ ten ids10, of 2] carried
    wf_tagged_function
  show ?thesis by simp
qed

lemma edge_xml_attributes:
  "attribute (edge_xml e) ''from-layer'' = Some (Number (from_layer e))"
  "attribute (edge_xml e) ''from-port'' = Some (Number (from_port e))"
  "attribute (edge_xml e) ''to-layer'' = Some (Number (to_layer e))"
  "attribute (edge_xml e) ''to-port'' = Some (Number (to_port e))"
  by (simp_all add: edge_xml_def attribute_def)

text \<open>
  C9. For a version 0 LSTM cell that has the input with index 6, in either version of the
  format: the input block of its layer has a port for every input but that one, numbered
  with the index of the input, so that the number 6 is left out and no port of the layer
  has it; the output ports are numbered from the number of inputs on; and no edge to port
  6 of that layer is written.
\<close>

theorem ngfunction_2_ir_lstm_peephole:
  assumes run: "ngfunction_2_ir f cw version deterministic = Inr (net, cw')"
    and wf: "wf_function f"
    and k: "k < length (sorted_ops f version)"
    and n: "n = sorted_ops f version ! k"
    and lstm: "is_LSTMCell_v0 n"
    and seven: "6 < length (inputs n)"
    and l: "l = children_of net ''layers'' ! k"
  shows "map (\<lambda>p. attribute p ''id'') (children_of l ''input'') =
           map (\<lambda>j. Some (Number (int j))) (filter (\<lambda>j. j \<noteq> 6) [0..<length (inputs n)]) \<and>
         port_by_id l 6 = None \<and>
         (\<not> is_output n \<longrightarrow>
            map (\<lambda>p. attribute p ''id'') (children_of l ''output'') =
              map (\<lambda>j. Some (Number (int (length (inputs n) + j)))) [0..<length (outputs n)]) \<and>
         (\<forall>e \<in> set (children_of net ''edges'').
            \<not> (attribute e ''to-layer'' = attribute l ''id'' \<and> attribute e ''to-port'' = Some (Number 6)))"
proof -
  from run obtain as ls es where
    loop: "layers_loop (create_layer_ids f) version deterministic (is_exec_graph f)
             (sorted_ops f version) [] cw = Inr (ls, cw')"
    and edges: "create_edge_mapping (create_layer_ids f) f = Inr es"
    and net: "net = Element ''net'' as
       [Element ''layers'' [] ls,
        Element ''edges'' [] (map edge_xml (filter (\<lambda>e. \<not> skipped_edge f e) es))]"
    by (rule ngfunction_2_irE)
  have l': "l = ls ! k" by (simp add: l net children_of_net)
  from layers_loop_nth [OF loop] k obtain u c u' c' where
    lay: "layer (create_layer_ids f) version deterministic (is_exec_graph f) n u c = Inr (l, u', c')"
    unfolding n l' by blast
  note p = layer_ports [OF lay]
  from lay obtain lid where lid: "create_layer_ids f (address n) = Some lid"
    by (auto elim: layerE)
  have ids: "map (\<lambda>p. attribute p ''id'') (children_of l ''input'') =
           map (\<lambda>j. Some (Number (int j))) (filter (\<lambda>j. j \<noteq> 6) [0..<length (inputs n)])"
    using p(5) lstm by simp
  have none: "port_by_id l 6 = None" using p(2) [of 6] seven lstm by simp
  have outs: "map (\<lambda>p. attribute p ''id'') (children_of l ''output'') =
              map (\<lambda>j. Some (Number (int (length (inputs n) + j)))) [0..<length (outputs n)]"
    if "\<not> is_output n"
    using p(6) [OF that] .
  have no_edge: "\<not> (attribute x ''to-layer'' = attribute l ''id'' \<and> attribute x ''to-port'' = Some (Number 6))"
    if x: "x \<in> set (children_of net ''edges'')" for x
  proof
    assume a: "attribute x ''to-layer'' = attribute l ''id'' \<and> attribute x ''to-port'' = Some (Number 6)"
    from x obtain e where e: "e \<in> set es" "\<not> skipped_edge f e" "x = edge_xml e"
      by (auto simp: net children_of_net)
    from a have tl: "to_layer e = lid" and tp: "to_port e = 6"
      by (simp_all add: e(3) edge_xml_attributes p(1) lid)
    from create_layer_ids_Some [OF lid] obtain i where
      i: "i < length (ordered_ops f)" "lid = int i" "address (ordered_ops f ! i) = address n"
      by blast
    have "n \<in> set (function_nodes f)" using k sorted_ops_subset [of f version] by (auto simp: n)
    moreover have "ordered_ops f ! i \<in> set (function_nodes f)" using i(1) by (simp add: function_nodes_def)
    ultimately have "ordered_ops f ! i = n" using wf i(3) by (intro wf_same_address [OF wf]) simp_all
    then have "skipped_edge f e" using lstm by (simp add: skipped_edge_def tl tp i(2))
    with e(2) show False by simp
  qed
  show ?thesis using ids none outs no_edge by blast
qed

lemma lstm_run:
  "\<exists>net cw'. ngfunction_2_ir lstm_function (ConstantWriter_new 0 True) 10 False = Inr (net, cw')"
proof -
  have "isl (ngfunction_2_ir lstm_function (ConstantWriter_new 0 True) 10 False) = False"
    by code_simp
  then show ?thesis by (cases "ngfunction_2_ir lstm_function (ConstantWriter_new 0 True) 10 False") auto
qed

lemma wf_lstm_function: "wf_function lstm_function"
  by code_simp

theorem ngfunction_2_ir_lstm_peephole_witness:
  "\<exists>net cw'. ngfunction_2_ir lstm_function (ConstantWriter_new 0 True) 10 False = Inr (net, cw') \<and>
     map (\<lambda>p. attribute p ''id'') (children_of (children_of net ''layers'' ! 1) ''input'') =
       [Some (Number 0), Some (Number 1), Some (Number 2), Some (Number 3), Some (Number 4),
        Some (Number 5)] \<and>
     port_by_id (children_of net ''layers'' ! 1) 6 = None \<and>
     map (\<lambda>p. attribute p ''id'') (children_of (children_of net ''layers'' ! 1) ''output'') =
       [Some (Number 7)]"
proof -
  from lstm_run obtain net cw' where
    run: "ngfunction_2_ir lstm_function (ConstantWriter_new 0 True) 10 False = Inr (net, cw')"
    by blast
  have so: "sorted_ops lstm_function 10 = lstm_nodes" by (simp add: sorted_ops_def lstm_function_def)
  have k: "1 < length (sorted_ops lstm_function 10)" by (simp add: so lstm_nodes_def)
  define n where "n = sorted_ops lstm_function 10 ! 1"
  have n': "n = example_node 20 ''LSTMCell'' Operation ''cell'' ''LSTMCell_1'' [10, 10, 10, 10, 10, 10, 10]"
    by (simp add: n_def so lstm_nodes_def)
  have lstm: "is_LSTMCell_v0 n" by (simp add: n' is_LSTMCell_v0_def example_node_def)
  have seven: "6 < length (inputs n)" by (simp add: n' example_node_def)
  have no: "\<not> is_output n" by (simp add: n' example_node_def is_output_def)
  have f: "filter (\<lambda>j. j \<noteq> 6) [0..<7] = [0, 1, 2, 3, 4, 5::nat]"
    by code_simp
  have o: "[0..<length (outputs n)] = [0]" "length (inputs n) = 7" by (simp_all add: n' example_node_def)
  from ngfunction_2_ir_lstm_peephole [OF run wf_lstm_function k n_def lstm seven refl] no
  show ?thesis using run by (simp add: f o)
qed

text \<open>
  C10 (amended). For a well-formed function, the edges are written sorted by the layer
  they come from, and every edge comes from an output of a node of the function: its
  from-layer is the identifier of that producer, and its from-port is the number of inputs
  of the producer plus the index of the output. When the producer is not a result, this is
  the number of a port in the output block of the producer's layer. A result has no
  output block.
\<close>

theorem ngfunction_2_ir_edges:
  assumes run: "ngfunction_2_ir f cw version deterministic = Inr (net, cw')"
    and wf: "wf_function f"
  shows "\<exists>es. children_of net ''edges'' = map edge_xml es \<and> sorted (map from_layer es) \<and>
    (\<forall>e \<in> set es. \<exists>producer \<in> set (ordered_ops f). \<exists>consumer \<in> set (ordered_ops f).
       \<exists>i \<in> set (inputs consumer).
         source_node i = address producer \<and>
         create_layer_ids f (address producer) = Some (from_layer e) \<and>
         from_port e = int (length (inputs producer)) + int (source_index i) \<and>
         (\<not> is_output producer \<longrightarrow>
            (\<exists>l \<in> set (children_of net ''layers'').
               attribute l ''id'' = Some (Number (from_layer e)) \<and>
               (\<exists>p \<in> set (children_of l ''output'').
                  attribute p ''id'' = Some (Number (from_port e))))))"
proof -
  from run obtain as ls es where
    loop: "layers_loop (create_layer_ids f) version deterministic (is_exec_graph f)
             (sorted_ops f version) [] cw = Inr (ls, cw')"
    and edges: "create_edge_mapping (create_layer_ids f) f = Inr es"
    and net: "net = Element ''net'' as
       [Element ''layers'' [] ls,
        Element ''edges'' [] (map edge_xml (filter (\<lambda>e. \<not> skipped_edge f e) es))]"
    by (rule ngfunction_2_irE)
  let ?es = "filter (\<lambda>e. \<not> skipped_edge f e) es"
  have c: "children_of net ''edges'' = map edge_xml ?es" by (simp add: net children_of_net)
  have s: "sorted (map from_layer ?es)"
    using create_edge_mapping_props(1) [OF edges] by (rule sorted_filter_map)
  have each: "\<exists>producer \<in> set (ordered_ops f). \<exists>consumer \<in> set (ordered_ops f).
       \<exists>i \<in> set (inputs consumer).
         source_node i = address producer \<and>
         create_layer_ids f (address producer) = Some (from_layer e) \<and>
         from_port e = int (length (inputs producer)) + int (source_index i) \<and>
         (\<not> is_output producer \<longrightarrow>
            (\<exists>l \<in> set (children_of net ''layers'').
               attribute l ''id'' = Some (Number (from_layer e)) \<and>
               (\<exists>p \<in> set (children_of l ''output'').
                  attribute p ''id'' = Some (Number (from_port e)))))"
    if "e \<in> set ?es" for e
  proof -
    from that have "e \<in> set es" by simp
    from create_edge_mapping_props(2) [OF edges this] obtain consumer j producer where
      co: "consumer \<in> set (ordered_ops f)" and j: "j < length (inputs consumer)"
      and fl: "create_layer_ids f (source_node (inputs consumer ! j)) = Some (from_layer e)"
      and fi: "find (\<lambda>m. address m = source_node (inputs consumer ! j)) (ordered_ops f) = Some producer"
      and fp: "from_port e = int (length (inputs producer)) + int (source_index (inputs consumer ! j))"
      by blast
    let ?i = "inputs consumer ! j"
    from fi have pr: "producer \<in> set (ordered_ops f)" and ad: "address producer = source_node ?i"
      by (auto simp: find_Some_iff)
    have i: "?i \<in> set (inputs consumer)" using j by simp
    have idx: "source_index ?i < length (outputs producer)"
      using wf co i pr ad unfolding wf_function_def by blast
    have port: "\<exists>l \<in> set (children_of net ''layers'').
               attribute l ''id'' = Some (Number (from_layer e)) \<and>
               (\<exists>p \<in> set (children_of l ''output'').
                  attribute p ''id'' = Some (Number (from_port e)))"
      if no: "\<not> is_output producer"
    proof -
      from ordered_in_sorted_ops [OF wf pr, of version] obtain k where
        k: "k < length (sorted_ops f version)" "sorted_ops f version ! k = producer"
        by (auto simp: in_set_conv_nth)
      from layers_loop_nth [OF loop] k obtain u c u' c' where
        lay: "layer (create_layer_ids f) version deterministic (is_exec_graph f) producer u c =
                Inr (ls ! k, u', c')"
        and len: "length ls = length (sorted_ops f version)"
        by blast
      note p = layer_ports [OF lay]
      from p(4) [OF idx no] obtain q where
        q: "port_by_id (ls ! k) (int (length (inputs producer) + source_index ?i)) = Some q"
          "q \<in> set (children_of (ls ! k) ''output'')"
        by blast
      from q(1) have "has_id (int (length (inputs producer) + source_index ?i)) q"
        by (auto simp: port_by_id_def find_Some_iff)
      then have "attribute q ''id'' = Some (Number (from_port e))" by (simp add: has_id_def fp)
      moreover have "attribute (ls ! k) ''id'' = Some (Number (from_layer e))"
        using p(1) fl by (simp add: ad)
      moreover have "ls ! k \<in> set (children_of net ''layers'')"
        using k(1) len by (simp add: net children_of_net)
      ultimately show ?thesis using q(2) by blast
    qed
    have fl': "create_layer_ids f (address producer) = Some (from_layer e)" using fl by (simp add: ad)
    have "source_node ?i = address producer \<and>
         create_layer_ids f (address producer) = Some (from_layer e) \<and>
         from_port e = int (length (inputs producer)) + int (source_index ?i) \<and>
         (\<not> is_output producer \<longrightarrow>
            (\<exists>l \<in> set (children_of net ''layers'').
               attribute l ''id'' = Some (Number (from_layer e)) \<and>
               (\<exists>p \<in> set (children_of l ''output'').
                  attribute p ''id'' = Some (Number (from_port e)))))"
      using ad fl' fp port by simp
    with pr co i show ?thesis by blast
  qed
  show ?thesis using c s each by blast
qed

lemma wf_two_branch_function: "wf_function two_branch_function"
  by code_simp

theorem ngfunction_2_ir_edges_witness:
  "\<exists>net cw' es. ngfunction_2_ir two_branch_function (ConstantWriter_new 0 True) 11 False = Inr (net, cw') \<and>
     children_of net ''edges'' = map edge_xml es \<and> sorted (map from_layer es)"
proof -
  from two_branch_run obtain net cw' where
    run: "ngfunction_2_ir two_branch_function (ConstantWriter_new 0 True) 11 False = Inr (net, cw')"
    by blast
  from ngfunction_2_ir_edges [OF run wf_two_branch_function] run show ?thesis by blast
qed

text \<open>
  The claim as it stands fails on a function in which a Relu reads the output of a
  result: the edge leaves port 1 of layer 1, and layer 1, the result, has port 0 only.
\<close>

theorem ngfunction_2_ir_edges_counterexample:
  "wf_function consumed_result_function \<and>
   (case ngfunction_2_ir consumed_result_function (ConstantWriter_new 0 True) 10 False of
      Inl e \<Rightarrow> False
    | Inr (net, cw') \<Rightarrow>
        map (\<lambda>e. (attribute e ''from-layer'', attribute e ''from-port'')) (children_of net ''edges'') =
          [(Some (Number 0), Some (Number 0)), (Some (Number 1), Some (Number 1)),
           (Some (Number 2), Some (Number 1))] \<and>
        attribute (children_of net ''layers'' ! 1) ''id'' = Some (Number 1) \<and>
        map (\<lambda>p. attribute p ''id'') (ports_of (children_of net ''layers'' ! 1)) = [Some (Number 0)])"
  by code_simp


section \<open>Deterministic serialization of functions of the same structure\<close>

lemma input_ports_rename:
  "input_ports version lstm index port_id (map (rename_source \<rho>) ins) =
   input_ports version lstm index port_id ins"
  by (induction ins arbitrary: index port_id lstm)
    (auto simp: rename_source_def split: sum.splits prod.splits)

lemma fold_layer_ids_rename:
  assumes "list_all2 (\<lambda>n1 n2. address n2 = \<rho> (address n1)) ops1 ops2"
    "length js = length ops1" "inj_on \<rho> S" "a \<in> S" "address ` set ops1 \<subseteq> S"
    "m2 (\<rho> a) = m1 a"
  shows "fold (\<lambda>(node, i) layer_ids. layer_ids(address node \<mapsto> int i)) (zip ops2 js) m2 (\<rho> a) =
         fold (\<lambda>(node, i) layer_ids. layer_ids(address node \<mapsto> int i)) (zip ops1 js) m1 a"
  using assms
proof (induction ops1 ops2 arbitrary: js m1 m2 rule: list_all2_induct)
  case Nil
  then show ?case by simp
next
  case (Cons n1 ops1 n2 ops2)
  from Cons.prems(1) obtain j js' where js: "js = j # js'" "length js' = length ops1"
    by (cases js) auto
  have in_S: "address n1 \<in> S" using Cons.prems(4) by simp
  have eq: "(\<rho> a = \<rho> (address n1)) = (a = address n1)"
    using Cons.prems(2,3) in_S by (auto dest: inj_onD)
  have m: "(m2(address n2 \<mapsto> int j)) (\<rho> a) = (m1(address n1 \<mapsto> int j)) a"
    using Cons.hyps(1) Cons.prems(5) eq by simp
  have sub: "address ` set ops1 \<subseteq> S" using Cons.prems(4) by auto
  from Cons.IH [of js' "m2(address n2 \<mapsto> int j)" "m1(address n1 \<mapsto> int j)"]
    js(2) Cons.prems(2) Cons.prems(3) sub m
  show ?case unfolding js by simp
qed

lemma find_rename:
  assumes "list_all2 r ops1 ops2" "\<And>n1 n2. r n1 n2 \<Longrightarrow> address n2 = \<rho> (address n1)"
    "inj_on \<rho> S" "a \<in> S" "address ` set ops1 \<subseteq> S"
  shows "rel_option r (find (\<lambda>m. address m = a) ops1) (find (\<lambda>m. address m = \<rho> a) ops2)"
  using assms(1,5)
proof (induction ops1 ops2 rule: list_all2_induct)
  case Nil
  then show ?case by simp
next
  case (Cons n1 ops1 n2 ops2)
  have "(\<rho> (address n1) = \<rho> a) = (address n1 = a)"
    using Cons.prems assms(3,4) by (auto dest: inj_onD)
  then show ?case using Cons assms(2) [OF Cons.hyps(1)] by auto
qed

lemma list_all2_filter:
  assumes "list_all2 r xs ys" "\<And>x y. r x y \<Longrightarrow> P x = Q y"
  shows "list_all2 r (filter P xs) (filter Q ys)"
  using assms(1)
proof (induction xs ys rule: list_all2_induct)
  case Nil
  then show ?case by simp
next
  case (Cons x xs y ys)
  then show ?case using assms(2) [OF Cons.hyps(1)] by simp
qed

lemma same_node_address: "same_node \<rho> n1 n2 \<Longrightarrow> address n2 = \<rho> (address n1)"
  by (simp add: same_node_def same_but_names_def)

lemma same_lists_addresses:
  assumes "same_lists (same_node \<rho>) \<rho> f1 f2"
  shows "list_all2 (\<lambda>n1 n2. address n2 = \<rho> (address n1)) (ordered_ops f1) (ordered_ops f2)"
  using assms unfolding same_lists_def
  by (auto elim!: list_all2_mono simp: same_node_address)

lemma create_layer_ids_rename:
  assumes "same_lists (same_node \<rho>) \<rho> f1 f2" "a \<in> set (addresses_of f1)"
  shows "create_layer_ids f2 (\<rho> a) = create_layer_ids f1 a"
proof -
  have len: "length (ordered_ops f2) = length (ordered_ops f1)"
    using same_lists_addresses [OF assms(1)] by (simp add: list_all2_lengthD)
  have inj: "inj_on \<rho> (set (addresses_of f1))"
    using assms(1) by (simp add: same_lists_def)
  have sub: "address ` set (ordered_ops f1) \<subseteq> set (addresses_of f1)"
    by (auto simp: addresses_of_def function_nodes_def)
  have "length [0..<length (ordered_ops f1)] = length (ordered_ops f1)" by simp
  from fold_layer_ids_rename [OF same_lists_addresses [OF assms(1)] this inj assms(2) sub,
      of Map.empty Map.empty]
  show ?thesis by (simp add: create_layer_ids_def len)
qed

lemma layer_rename:
  assumes "same_node \<rho> n1 n2" "ids2 (address n2) = ids1 (address n1)"
  shows "layer ids2 version True exec_graph n2 unique_names cw =
         layer ids1 version True exec_graph n1 unique_names cw"
proof -
  have eqs: "type_name n2 = type_name n1" "type_version n2 = type_version n1" "kind n2 = kind n1"
    "inputs n2 = map (rename_source \<rho>) (inputs n1)" "outputs n2 = outputs n1"
    "rt_info n2 = rt_info n1" "opset_name n2 = opset_name n1" "visited n2 = visited n1"
    using assms(1) by (simp_all add: same_node_def same_but_names_def)
  have name: "is_name_auto_generated n2 = is_name_auto_generated n1"
    "\<not> is_name_auto_generated n1 \<Longrightarrow>
       get_node_unique_name unique_names n2 = get_node_unique_name unique_names n1"
    using assms(1)
    by (auto simp: same_node_def same_name_def get_node_unique_name_def split: if_splits)
  show ?thesis
  proof (cases "is_name_auto_generated n1")
    case True
    then show ?thesis
      by (simp add: layer_def assms(2) eqs name(1) is_output_def is_LSTMCell_v0_def
          input_ports_rename Let_def cong: option.case_cong sum.case_cong if_cong)
  next
    case False
    then show ?thesis
      by (simp add: layer_def assms(2) eqs name is_output_def is_LSTMCell_v0_def
          input_ports_rename Let_def cong: option.case_cong sum.case_cong if_cong)
  qed
qed

lemma layers_loop_rename:
  assumes "list_all2 (same_node \<rho>) ns1 ns2"
    "\<And>n. n \<in> set ns1 \<Longrightarrow> ids2 (\<rho> (address n)) = ids1 (address n)"
  shows "layers_loop ids2 version True exec_graph ns2 unique_names cw =
         layers_loop ids1 version True exec_graph ns1 unique_names cw"
  using assms
proof (induction ns1 ns2 arbitrary: unique_names cw rule: list_all2_induct)
  case Nil
  then show ?case by simp
next
  case (Cons n1 ns1 n2 ns2)
  have "ids2 (address n2) = ids1 (address n1)"
    using Cons.prems [of n1] same_node_address [OF Cons.hyps(1)] by simp
  from layer_rename [of \<rho> n1 n2 ids2 ids1, OF Cons.hyps(1) this]
  have l: "layer ids2 version True exec_graph n2 unique_names cw =
           layer ids1 version True exec_graph n1 unique_names cw" .
  have r: "\<And>un cw. layers_loop ids2 version True exec_graph ns2 un cw =
           layers_loop ids1 version True exec_graph ns1 un cw"
    using Cons.IH Cons.prems by simp
  show ?case by (simp only: layers_loop.simps l r)
qed

lemma sorted_ops_rename:
  assumes "same_lists (same_node \<rho>) \<rho> f1 f2"
  shows "list_all2 (same_node \<rho>) (sorted_ops f1 version) (sorted_ops f2 version)"
proof -
  have k: "same_node \<rho> x y \<Longrightarrow>
      (\<not> is_parameter x \<and> \<not> is_output x \<and> \<not> is_sink x) = (\<not> is_parameter y \<and> \<not> is_output y \<and> \<not> is_sink y)"
    for x y
    by (simp add: same_node_def same_but_names_def is_parameter_def is_output_def is_sink_def)
  have "list_all2 (same_node \<rho>)
      (filter (\<lambda>node. \<not> is_parameter node \<and> \<not> is_output node \<and> \<not> is_sink node) (ordered_ops f1))
      (filter (\<lambda>node. \<not> is_parameter node \<and> \<not> is_output node \<and> \<not> is_sink node) (ordered_ops f2))"
    using assms by (intro list_all2_filter k) (simp_all add: same_lists_def)
  then show ?thesis
    using assms by (auto simp: sorted_ops_def same_lists_def intro!: list_all2_appendI)
qed

lemma node_edges_rename:
  assumes "same_lists (same_node \<rho>) \<rho> f1 f2"
    "address n2 = \<rho> (address n1)" "address n1 \<in> set (addresses_of f1)"
    "source_node ` set ins \<subseteq> set (addresses_of f1)"
  shows "node_edges (create_layer_ids f2) f2 n2 index (map (rename_source \<rho>) ins) =
         node_edges (create_layer_ids f1) f1 n1 index ins"
  using assms(4)
proof (induction ins arbitrary: index)
  case Nil
  then show ?case by simp
next
  case (Cons i rest)
  have s: "source_node i \<in> set (addresses_of f1)" using Cons.prems by simp
  have inj: "inj_on \<rho> (set (addresses_of f1))"
    and ops: "list_all2 (same_node \<rho>) (ordered_ops f1) (ordered_ops f2)"
    using assms(1) by (simp_all add: same_lists_def)
  have sub: "address ` set (ordered_ops f1) \<subseteq> set (addresses_of f1)"
    by (auto simp: addresses_of_def function_nodes_def)
  have from_id: "create_layer_ids f2 (\<rho> (source_node i)) = create_layer_ids f1 (source_node i)"
    by (rule create_layer_ids_rename [OF assms(1) s])
  have to_id: "create_layer_ids f2 (address n2) = create_layer_ids f1 (address n1)"
    unfolding assms(2) by (rule create_layer_ids_rename [OF assms(1) assms(3)])
  have producer: "rel_option (same_node \<rho>)
      (find (\<lambda>m. address m = source_node i) (ordered_ops f1))
      (find (\<lambda>m. address m = \<rho> (source_node i)) (ordered_ops f2))"
    by (rule find_rename [where r = "same_node \<rho>" and \<rho> = \<rho>, OF ops _ inj s sub])
      (rule same_node_address)
  have rest: "node_edges (create_layer_ids f2) f2 n2 (Suc index) (map (rename_source \<rho>) rest) =
         node_edges (create_layer_ids f1) f1 n1 (Suc index) rest"
    using Cons.IH [of "Suc index"] Cons.prems by simp
  have hd: "source_node (rename_source \<rho> i) = \<rho> (source_node i)"
    "source_index (rename_source \<rho> i) = source_index i"
    by (simp_all add: rename_source_def)
  show ?case
  proof (cases "find (\<lambda>m. address m = source_node i) (ordered_ops f1)")
    case None
    with producer have "find (\<lambda>m. address m = \<rho> (source_node i)) (ordered_ops f2) = None"
      by (cases "find (\<lambda>m. address m = \<rho> (source_node i)) (ordered_ops f2)") simp_all
    with None show ?thesis
      by (simp add: hd from_id to_id split: option.splits)
  next
    case (Some p1)
    with producer obtain p2 where
      p2: "find (\<lambda>m. address m = \<rho> (source_node i)) (ordered_ops f2) = Some p2" "same_node \<rho> p1 p2"
      by (cases "find (\<lambda>m. address m = \<rho> (source_node i)) (ordered_ops f2)") simp_all
    have len: "length (inputs p2) = length (inputs p1)"
      using p2(2) by (simp add: same_node_def same_but_names_def)
    show ?thesis
      by (simp add: hd from_id to_id Some p2(1) rest len
          cong: sum.case_cong option.case_cong split: option.splits)
  qed
qed

lemma all_edges_rename:
  assumes "same_lists (same_node \<rho>) \<rho> f1 f2" "list_all2 (same_node \<rho>) ns1 ns2"
    "set ns1 \<subseteq> set (ordered_ops f1)"
  shows "all_edges (create_layer_ids f2) f2 ns2 = all_edges (create_layer_ids f1) f1 ns1"
  using assms(2,3)
proof (induction ns1 ns2 rule: list_all2_induct)
  case Nil
  then show ?case by simp
next
  case (Cons n1 ns1 n2 ns2)
  have n1: "n1 \<in> set (ordered_ops f1)" using Cons.prems by simp
  then have a: "address n1 \<in> set (addresses_of f1)"
    by (auto simp: addresses_of_def function_nodes_def)
  have srcs: "source_node ` set (inputs n1) \<subseteq> set (addresses_of f1)"
    using n1 by (auto simp: addresses_of_def)
  have same: "address n2 = \<rho> (address n1)" "inputs n2 = map (rename_source \<rho>) (inputs n1)"
    "is_parameter n2 = is_parameter n1"
    using Cons.hyps(1) by (simp_all add: same_node_def same_but_names_def is_parameter_def)
  have ne: "node_edges (create_layer_ids f2) f2 n2 0 (inputs n2) =
        node_edges (create_layer_ids f1) f1 n1 0 (inputs n1)"
    unfolding same(2) by (rule node_edges_rename [OF assms(1) same(1) a srcs])
  have ae: "all_edges (create_layer_ids f2) f2 ns2 = all_edges (create_layer_ids f1) f1 ns1"
    using Cons by simp
  show ?case by (simp only: all_edges.simps same(3) ne ae)
qed

lemma skipped_edge_rename:
  assumes "same_lists (same_node \<rho>) \<rho> f1 f2" "create_edge_mapping (create_layer_ids f1) f1 = Inr es"
    "e \<in> set es"
  shows "skipped_edge f2 e = skipped_edge f1 e"
proof -
  from create_edge_mapping_props(2) [OF assms(2,3)] obtain consumer :: Node where
    "create_layer_ids f1 (address consumer) = Some (to_layer e)" by blast
  from create_layer_ids_Some [OF this] obtain i where
    i: "i < length (ordered_ops f1)" "to_layer e = int i" by blast
  have "list_all2 (same_node \<rho>) (ordered_ops f1) (ordered_ops f2)"
    using assms(1) by (simp add: same_lists_def)
  from list_all2_nthD [OF this i(1)]
  have "is_LSTMCell_v0 (ordered_ops f2 ! i) = is_LSTMCell_v0 (ordered_ops f1 ! i)"
    by (simp add: same_node_def same_but_names_def is_LSTMCell_v0_def)
  then show ?thesis by (simp add: skipped_edge_def i(2))
qed

lemma is_exec_graph_rename:
  assumes "list_all2 (same_node \<rho>) ns1 ns2"
  shows "(\<exists>op \<in> set ns2. map_of (rt_info op) ''execTimeMcs'' \<noteq> None) =
         (\<exists>op \<in> set ns1. map_of (rt_info op) ''execTimeMcs'' \<noteq> None)"
  using assms
  by (induction ns1 ns2 rule: list_all2_induct) (simp_all add: same_node_def same_but_names_def)


lemma layer_name:
  assumes "layer layer_ids version True exec_graph node unique_names cw = Inr (l, unique_names', cw')"
  shows "(attribute l ''name'' = None) = is_name_auto_generated node"
proof -
  from assms obtain as children where
    l: "l = Element ''layer'' as children"
    and as: "map_of as ''name'' =
      (if is_name_auto_generated node then None
       else Some (Text (fst (get_node_unique_name unique_names node))))"
    by (auto simp: layer_def Let_def split: option.splits sum.splits prod.splits if_splits)
  then show ?thesis by (simp add: attribute_def)
qed

lemma net_name:
  assumes "ngfunction_2_ir f cw version True = Inr (net, cw')"
  shows "(attribute net ''name'' = None) = fn_is_name_auto_generated f"
  using assms
  by (auto simp: ngfunction_2_ir_def Let_def attribute_def split: sum.splits prod.splits if_splits)

lemma names_omitted:
  assumes "ngfunction_2_ir f cw version True = Inr (net, cw')"
  shows "(attribute net ''name'' = None) = fn_is_name_auto_generated f"
    and "k < length (sorted_ops f version) \<Longrightarrow>
         (attribute (children_of net ''layers'' ! k) ''name'' = None) =
         is_name_auto_generated (sorted_ops f version ! k)"
proof -
  show "(attribute net ''name'' = None) = fn_is_name_auto_generated f"
    by (rule net_name [OF assms])
  assume k: "k < length (sorted_ops f version)"
  from assms obtain as ls es where
    loop: "layers_loop (create_layer_ids f) version True (is_exec_graph f) (sorted_ops f version) [] cw =
       Inr (ls, cw')"
    and net: "net = Element ''net'' as
       [Element ''layers'' [] ls,
        Element ''edges'' [] (map edge_xml (filter (\<lambda>e. \<not> skipped_edge f e) es))]"
    by (rule ngfunction_2_irE)
  from layers_loop_nth [OF loop] k obtain u c u' c' where
    "layer (create_layer_ids f) version True (is_exec_graph f) (sorted_ops f version ! k) u c =
       Inr (ls ! k, u', c')"
    by blast
  from layer_name [OF this]
  show "(attribute (children_of net ''layers'' ! k) ''name'' = None) =
         is_name_auto_generated (sorted_ops f version ! k)"
    by (simp add: net children_of_net)
qed

text \<open>
  C3 (amended). Let two functions have the same structure along a renaming of the node
  addresses that keeps the addresses of the first apart: the nodes correspond one to one
  in the topological order and in the lists of parameters, sinks and results, with equal
  types, attributes, ports and runtime information, whatever their unique names; the name
  of a node, and of the function, is auto-generated in both or in neither, and names that
  are not auto-generated are equal. Then the deterministic runs of the serializer on the
  two functions, from the same state of the writer, have the same result: the same
  document and the same binary stream, or the same error. In the document the function
  has no name exactly when its name is auto-generated, and so has the layer of each node.
\<close>

theorem ngfunction_2_ir_deterministic:
  assumes "same_structure \<rho> f1 f2"
  shows "ngfunction_2_ir f2 cw version True = ngfunction_2_ir f1 cw version True \<and>
    (\<forall>net cw'. ngfunction_2_ir f1 cw version True = Inr (net, cw') \<longrightarrow>
       (attribute net ''name'' = None) = fn_is_name_auto_generated f1 \<and>
       (\<forall>k < length (sorted_ops f1 version).
          (attribute (children_of net ''layers'' ! k) ''name'' = None) =
          is_name_auto_generated (sorted_ops f1 version ! k)))"
proof (intro conjI allI impI)
  fix net cw' k
  assume run: "ngfunction_2_ir f1 cw version True = Inr (net, cw')"
  show "(attribute net ''name'' = None) = fn_is_name_auto_generated f1"
    by (rule names_omitted(1) [OF run])
  assume "k < length (sorted_ops f1 version)"
  then show "(attribute (children_of net ''layers'' ! k) ''name'' = None) =
          is_name_auto_generated (sorted_ops f1 version ! k)"
    by (rule names_omitted(2) [OF run])
next
  from assms have sl: "same_lists (same_node \<rho>) \<rho> f1 f2"
    and auto_name: "fn_is_name_auto_generated f2 = fn_is_name_auto_generated f1"
    and name: "\<not> fn_is_name_auto_generated f1 \<Longrightarrow> fn_get_friendly_name f2 = fn_get_friendly_name f1"
    by (auto simp: same_structure_def split: if_splits)
  have ops: "list_all2 (same_node \<rho>) (ordered_ops f1) (ordered_ops f2)"
    using sl by (simp add: same_lists_def)
  have net_attributes:
    "(if \<not> True \<or> \<not> fn_is_name_auto_generated f2
      then [(''name'', Text (fn_get_friendly_name f2))] else []) =
     (if \<not> True \<or> \<not> fn_is_name_auto_generated f1
      then [(''name'', Text (fn_get_friendly_name f1))] else [])"
    using auto_name name by simp
  have exec: "is_exec_graph f2 = is_exec_graph f1"
    unfolding is_exec_graph_def by (rule is_exec_graph_rename [OF ops])
  have "layers_loop (create_layer_ids f2) version True (is_exec_graph f1) (sorted_ops f2 version) [] cw =
        layers_loop (create_layer_ids f1) version True (is_exec_graph f1) (sorted_ops f1 version) [] cw"
  proof (rule layers_loop_rename [OF sorted_ops_rename [OF sl]])
    fix n assume "n \<in> set (sorted_ops f1 version)"
    then have "address n \<in> set (addresses_of f1)"
      using sorted_ops_subset [of f1 version] by (auto simp: addresses_of_def)
    then show "create_layer_ids f2 (\<rho> (address n)) = create_layer_ids f1 (address n)"
      by (rule create_layer_ids_rename [OF sl])
  qed
  then have loop: "layers_loop (create_layer_ids f2) version True (is_exec_graph f2) (sorted_ops f2 version) [] cw =
        layers_loop (create_layer_ids f1) version True (is_exec_graph f1) (sorted_ops f1 version) [] cw"
    by (simp add: exec)
  have edges: "create_edge_mapping (create_layer_ids f2) f2 = create_edge_mapping (create_layer_ids f1) f1"
    unfolding create_edge_mapping_def using all_edges_rename [OF sl ops] by simp
  show "ngfunction_2_ir f2 cw version True = ngfunction_2_ir f1 cw version True"
  proof (cases "layers_loop (create_layer_ids f1) version True (is_exec_graph f1) (sorted_ops f1 version) [] cw")
    case (Inl e)
    then show ?thesis by (simp add: ngfunction_2_ir_def loop)
  next
    case (Inr r)
    obtain ls cw' where r: "r = (ls, cw')" by (cases r)
    show ?thesis
    proof (cases "create_edge_mapping (create_layer_ids f1) f1")
      case (Inl e)
      then show ?thesis by (simp add: ngfunction_2_ir_def loop edges Inr r)
    next
      case es: (Inr es)
      have "filter (\<lambda>e. \<not> skipped_edge f2 e) es = filter (\<lambda>e. \<not> skipped_edge f1 e) es"
        by (rule filter_cong [OF refl]) (simp add: skipped_edge_rename [OF sl es])
      then show ?thesis
        using net_attributes by (simp add: ngfunction_2_ir_def loop edges Inr r es)
    qed
  qed
qed

lemma chain_same_structure:
  "same_structure (\<lambda>a. a + 10) (chain_function 10 0 []) (chain_function 20 7 [])"
  by (simp add: same_structure_def same_lists_def same_node_def same_but_names_def same_name_def
      chain_function_def Let_def example_node_def example_input_def rename_source_def
      is_name_auto_generated_def get_friendly_name_def get_name_def
      fn_is_name_auto_generated_def fn_get_friendly_name_def)

theorem ngfunction_2_ir_deterministic_witness:
  "same_structure (\<lambda>a. a + 10) (chain_function 10 0 []) (chain_function 20 7 []) \<and>
   fn_unique_name (chain_function 20 7 []) \<noteq> fn_unique_name (chain_function 10 0 []) \<and>
   ngfunction_2_ir (chain_function 20 7 []) (ConstantWriter_new 0 True) 11 True =
   ngfunction_2_ir (chain_function 10 0 []) (ConstantWriter_new 0 True) 11 True \<and>
   (\<exists>net cw'. ngfunction_2_ir (chain_function 10 0 []) (ConstantWriter_new 0 True) 11 True = Inr (net, cw') \<and>
      attribute net ''name'' = None \<and>
      map (\<lambda>l. attribute l ''name'' = None) (children_of net ''layers'') = [False, True, False])"
proof -
  have differ: "fn_unique_name (chain_function 20 7 []) \<noteq> fn_unique_name (chain_function 10 0 [])"
    by code_simp
  have "isl (ngfunction_2_ir (chain_function 10 0 []) (ConstantWriter_new 0 True) 11 True) = False"
    by code_simp
  then obtain net cw' where
    run: "ngfunction_2_ir (chain_function 10 0 []) (ConstantWriter_new 0 True) 11 True = Inr (net, cw')"
    by (cases "ngfunction_2_ir (chain_function 10 0 []) (ConstantWriter_new 0 True) 11 True") auto
  have nodes: "length (sorted_ops (chain_function 10 0 []) 11) = 3"
    "map is_name_auto_generated (sorted_ops (chain_function 10 0 []) 11) = [False, True, False]"
    "fn_is_name_auto_generated (chain_function 10 0 [])"
    by (simp_all add: sorted_ops_def chain_function_def Let_def example_node_def is_parameter_def
        is_output_def is_sink_def is_name_auto_generated_def get_friendly_name_def get_name_def
        fn_is_name_auto_generated_def fn_get_friendly_name_def)
  from layers_loop_nth ngfunction_2_irE [OF run]
  have len: "length (children_of net ''layers'') = 3"
    by (metis children_of_net(1) nodes(1))
  from ngfunction_2_ir_deterministic [OF chain_same_structure, of "ConstantWriter_new 0 True" 11]
  have same: "ngfunction_2_ir (chain_function 20 7 []) (ConstantWriter_new 0 True) 11 True =
      ngfunction_2_ir (chain_function 10 0 []) (ConstantWriter_new 0 True) 11 True"
    and net: "attribute net ''name'' = None"
    and layers: "\<forall>k < 3. (attribute (children_of net ''layers'' ! k) ''name'' = None) =
        is_name_auto_generated (sorted_ops (chain_function 10 0 []) 11 ! k)"
    using run nodes(1,3) by simp_all
  have "map (\<lambda>l. attribute l ''name'' = None) (children_of net ''layers'') =
        map is_name_auto_generated (sorted_ops (chain_function 10 0 []) 11)"
    using len nodes(1) layers by (intro nth_equalityI) simp_all
  with chain_same_structure differ same run net nodes(2) show ?thesis by simp
qed

text \<open>
  The claim as it stands fails when a friendly name that was set is equal to the unique
  name in one of the two functions only. The two functions here are equal but for the
  addresses and the unique names; the Relu has the friendly name \<open>Relu_1\<close> in both, and
  in the first this is also its unique name. The first document has no name for the layer
  of the Relu, the second has the name.
\<close>

theorem ngfunction_2_ir_deterministic_counterexample:
  "same_but_ids (\<lambda>a. a + 10) (chain_function 10 0 ''Relu_1'') (chain_function 20 7 ''Relu_1'') \<and>
   (case (ngfunction_2_ir (chain_function 10 0 ''Relu_1'') (ConstantWriter_new 0 True) 11 True,
          ngfunction_2_ir (chain_function 20 7 ''Relu_1'') (ConstantWriter_new 0 True) 11 True) of
      (Inr (net1, cw1), Inr (net2, cw2)) \<Rightarrow>
        map (\<lambda>l. attribute l ''name'') (children_of net1 ''layers'') =
          [Some (Text ''x''), None, Some (Text ''y'')] \<and>
        map (\<lambda>l. attribute l ''name'') (children_of net2 ''layers'') =
          [Some (Text ''x''), Some (Text ''Relu_1''), Some (Text ''y'')]
    | _ \<Rightarrow> False)"
proof
  show "same_but_ids (\<lambda>a. a + 10) (chain_function 10 0 ''Relu_1'') (chain_function 20 7 ''Relu_1'')"
    by (simp add: same_but_ids_def same_lists_def same_but_names_def
        chain_function_def Let_def example_node_def example_input_def rename_source_def)
  show "(case (ngfunction_2_ir (chain_function 10 0 ''Relu_1'') (ConstantWriter_new 0 True) 11 True,
          ngfunction_2_ir (chain_function 20 7 ''Relu_1'') (ConstantWriter_new 0 True) 11 True) of
      (Inr (net1, cw1), Inr (net2, cw2)) \<Rightarrow>
        map (\<lambda>l. attribute l ''name'') (children_of net1 ''layers'') =
          [Some (Text ''x''), None, Some (Text ''y'')] \<and>
        map (\<lambda>l. attribute l ''name'') (children_of net2 ''layers'') =
          [Some (Text ''x''), Some (Text ''Relu_1''), Some (Text ''y'')]
    | _ \<Rightarrow> False)"
    by code_simp
qed


section \<open>Serializing to files: what a failed run leaves behind\<close>

text \<open>
  C6. The claim asks that a version mismatch, an unsupported version and an output target
  that cannot be opened abort before a byte is written and leave no output file behind.
  The code aborts in each case and has written no byte, but the files it has made stay:
  with the version 10 asked for and a function whose hint is version 11, both files
  exist, empty, after the run; so they do for a hint of 9 with no version asked for; and
  when the xml file cannot be opened, the bin file made before it stays.
\<close>

theorem run_on_function_leaves_files:
  "(case run_on_function (example_pass IR_V10)
           (two_branch_function\<lparr>fn_rt_info_version := Some 11\<rparr>) empty_directory of
      (r, fs) \<Rightarrow>
        r = Inl (ngraph_error ''Cannot serialize function to incompatible IR version'') \<and>
        files fs ''model.xml'' = Some (Bytes []) \<and> files fs ''model.bin'' = Some (Bytes [])) \<and>
   (case run_on_function (example_pass UNSPECIFIED)
           (two_branch_function\<lparr>fn_rt_info_version := Some 9\<rparr>) empty_directory of
      (r, fs) \<Rightarrow>
        r = Inl (ngraph_error ''Unsupported version'') \<and>
        files fs ''model.xml'' = Some (Bytes []) \<and> files fs ''model.bin'' = Some (Bytes [])) \<and>
   (case run_on_function (example_pass IR_V11) two_branch_function (directory_without ''model.xml'') of
      (r, fs) \<Rightarrow>
        r = Inl (CheckFailure (''Can't open xml file: '' @ quoted ''model.xml'')) \<and>
        files fs ''model.xml'' = None \<and> files fs ''model.bin'' = Some (Bytes []))"
  by (simp add: run_on_function_def serializeFunc_def open_ofstream_def example_pass_def
      empty_directory_def directory_without_def UNSPECIFIED_def IR_V10_def IR_V11_def)

text \<open>
  What does hold: a failure that is a \<open>CheckFailure\<close> from inside \<open>serializeFunc\<close>
  removes both files, and no failure leaves a saved document.
\<close>

lemma run_on_function_check_failure_removes:
  assumes "can_open fs (m_binPath p)" "can_open fs (m_xmlPath p)"
    "serializeFunc f (m_version p) False = Inl (CheckFailure msg, written)"
  shows "run_on_function p f fs =
    (Inl (CheckFailure msg), remove_file (m_binPath p) (remove_file (m_xmlPath p)
       (fs\<lparr>files := (files fs)(m_binPath p \<mapsto> Bytes [], m_xmlPath p \<mapsto> Bytes [])\<rparr>)))"
  using assms by (simp add: run_on_function_def open_ofstream_def)

lemma serializeFunc_version_errors:
  "ver \<noteq> UNSPECIFIED \<Longrightarrow> fn_rt_info_version f = Some v \<Longrightarrow> v \<noteq> ver \<Longrightarrow>
   serializeFunc f ver d = Inl (ngraph_error ''Cannot serialize function to incompatible IR version'', False)"
  by (simp add: serializeFunc_def)


section \<open>\<open>AddFakeQuantizeFusion\<close>: a declined match leaves the graph as it was\<close>

lemma single_value_constant_keeps:
  "single_value_constant ops p c s g = (False, q, g') \<Longrightarrow> g' = g"
  by (auto simp: single_value_constant_def make_shared_def Let_def split: if_splits option.splits)

lemma fuse_returns_true:
  "fuse ops m fq c first g = Some (b, g') \<Longrightarrow> b"
  by (auto simp: fuse_def Let_def split: if_splits option.splits prod.splits)

lemma example_declined:
  "callback example_operations example_match (example_graph [3, 4] [1, 2, 3, 4, 5, 6, 7, 8, 9, 10, 11, 12])
     = Some (False, example_graph [3, 4] [1, 2, 3, 4, 5, 6, 7, 8, 9, 10, 11, 12])"
  by (simp add: callback_def example_operations_def example_match_def example_graph_def output_of_def
      new_node_def new_constant_def example_bitwidth_def get_shape_def static_shape_def is_static_def
      has_upper_bound_def Dimension_of_def INT64_MAX_def single_value_constant_def shape_size_def
      example_single_value_def)

text \<open>
  C8. Whenever the callback of the matcher returns false, the graph after the call is the
  graph before it: the same nodes at the same addresses, with the same input values,
  outputs, elements, names and runtime information, and no address has been taken. Each
  return of false comes before the callback makes a node, but for the Constant of line
  53, which is made only when the constant repeats one value, and then the callback does
  not decline.
\<close>

theorem callback_false_keeps_graph:
  assumes "callback ops m g = Some (False, g')"
  shows "g' = g"
proof -
  obtain input where i: "output_of g (input_pattern m) = Some input"
    using assms by (auto simp: callback_def split: option.splits)
  show ?thesis
  proof (cases "bitwidth ops (fst input) < bitwidth ops t_f32")
    case True
    then show ?thesis using assms i by (simp add: callback_def)
  next
    case wide: False
    obtain fq add_node add_const where n: "g_nodes g (fq_pattern m) = Some fq"
      "g_nodes g (add_pattern m) = Some add_node" "g_nodes g (const_pattern m) = Some add_const"
      using assms i wide by (auto simp: callback_def split: option.splits)
    show ?thesis
    proof (cases "g_type fq \<noteq> FakeQuantize \<or> g_type add_const \<noteq> Constant")
      case True
      then show ?thesis using assms i wide n by (auto simp: callback_def split: if_splits)
    next
      case False
      then obtain const_shape where s: "get_shape add_const = Some const_shape"
        using assms i wide n by (auto simp: callback_def split: option.splits)
      obtain single new_const g1 where
        c: "single_value_constant ops (const_pattern m) add_const const_shape g = (single, new_const, g1)"
        by (cases "single_value_constant ops (const_pattern m) add_const const_shape g") auto
      show ?thesis
      proof (cases single)
        case True
        then have "fuse ops m fq new_const (g_next g) g1 = Some (False, g')"
          using assms i wide n False s c by (simp add: callback_def)
        then show ?thesis using fuse_returns_true by blast
      next
        case no: False
        then have g1: "g1 = g" using c single_value_constant_keeps [of ops "const_pattern m" add_const const_shape g new_const g1] by simp
        have "g' = g1 \<or> (\<exists>c' g2. fuse ops m fq c' (g_next g) g2 = Some (False, g'))"
          using assms i wide n False s c no
          by (auto simp: callback_def Let_def split: if_splits option.splits prod.splits)
        then show ?thesis using g1 fuse_returns_true by blast
      qed
    qed
  qed
qed

theorem callback_false_keeps_graph_witness:
  "callback example_operations example_match (example_graph [3, 4] [1, 2, 3, 4, 5, 6, 7, 8, 9, 10, 11, 12])
     = Some (False, snd (the (callback example_operations example_match
          (example_graph [3, 4] [1, 2, 3, 4, 5, 6, 7, 8, 9, 10, 11, 12])))) \<and>
   snd (the (callback example_operations example_match
          (example_graph [3, 4] [1, 2, 3, 4, 5, 6, 7, 8, 9, 10, 11, 12])))
     = example_graph [3, 4] [1, 2, 3, 4, 5, 6, 7, 8, 9, 10, 11, 12]"
proof -
  have declined: "callback example_operations example_match
      (example_graph [3, 4] [1, 2, 3, 4, 5, 6, 7, 8, 9, 10, 11, 12])
     = Some (False, snd (the (callback example_operations example_match
          (example_graph [3, 4] [1, 2, 3, 4, 5, 6, 7, 8, 9, 10, 11, 12]))))"
    by (simp add: example_declined)
  from callback_false_keeps_graph [OF declined] declined show ?thesis
    by simp
qed

text \<open>
  The callback does change the graph when it fuses: the Result reads the new FakeQuantize,
  whose bounds are the folded constants, and the two Subtract nodes are gone.
\<close>

lemma example_fused:
  "(case callback example_operations example_match (example_graph [1] [2]) of
      None \<Rightarrow> False
    | Some (changed, g) \<Rightarrow>
        changed \<and> g_next g = 14 \<and>
        map (\<lambda>p. map_option g_input_values (g_nodes g p)) [8, 9, 11, 13]
          = [Some [(13, 0)], None, None, Some [(0, 0), (10, 0), (12, 0), (5, 0), (6, 0)]] \<and>
        map (\<lambda>p. map_option g_data (g_nodes g p)) [10, 12] = [Some [- 2], Some [8]])"
  by code_simp


end
